theory Spec2Isabelle
  imports Main "HOL-Library.Monad_Syntax"
begin

section \<open>Panics\<close>

text \<open>
  The Go code signals a fatal error by panicking. A panic is a value of the model. The
  functions of the sorted array return \<open>panic + 'r\<close>, with \<open>Inl\<close> the panic. The
  functions of the list can only panic by dereferencing a nil pointer; they return an
  \<open>option\<close>, with \<open>None\<close> that panic.
\<close>

datatype panic =
    ComparatorMissing    \<comment> \<open>\<open>panic("comparator is missing for sorted array")\<close>\<close>
  | IndexOutOfRange      \<comment> \<open>the runtime panic of an index or slice expression out of range\<close>

section \<open>garray: the sorted array\<close>

text \<open>
  \<open>SortedArray[T]\<close> of \<open>garray_sorted.go\<close>. The mutex is left out: the model is of
  one goroutine. A nil comparator is \<open>None\<close>. Comparators return Go \<open>int\<close>s that are only
  ever compared with zero, so \<open>int\<close> stands for them.
\<close>

record 'a SortedArray =
  array :: "'a list"
  unique :: bool
  comparator :: "('a \<Rightarrow> 'a \<Rightarrow> int) option"

definition NewSortedArraySize :: "nat \<Rightarrow> ('a \<Rightarrow> 'a \<Rightarrow> int) option \<Rightarrow> 'a SortedArray" where
  "NewSortedArraySize cap c = \<lparr>array = [], unique = False, comparator = c\<rparr>"

definition NewSortedArray :: "('a \<Rightarrow> 'a \<Rightarrow> int) option \<Rightarrow> 'a SortedArray" where
  "NewSortedArray c = NewSortedArraySize 0 c"

definition getComparator :: "'a SortedArray \<Rightarrow> panic + ('a \<Rightarrow> 'a \<Rightarrow> int)" where
  "getComparator a = (case comparator a of None \<Rightarrow> Inl ComparatorMissing | Some c \<Rightarrow> Inr c)"

definition Len :: "'a SortedArray \<Rightarrow> int" where
  "Len a = int (length (array a))"

text \<open>\<open>Get\<close> returns \<open>(value, found)\<close>; \<open>None\<close> stands for \<open>(zero value, false)\<close>.\<close>

definition Get :: "'a SortedArray \<Rightarrow> int \<Rightarrow> 'a option" where
  "Get a index =
     (if index < 0 \<or> index \<ge> int (length (array a)) then None
      else Some (array a ! nat index))"

text \<open>
  The loop of \<open>binSearch\<close>, on the loop variables \<open>min\<close>, \<open>max\<close>, \<open>mid\<close>, \<open>cmp\<close>.
  \<open>a.getComparator()\<close> is called at every iteration, before the element is read.
\<close>

function binSearch_loop ::
  "'a SortedArray \<Rightarrow> 'a \<Rightarrow> int \<Rightarrow> int \<Rightarrow> int \<Rightarrow> int \<Rightarrow> panic + (int \<times> int)" where
  "binSearch_loop a v mn mx mid cmp =
     (if mn \<le> mx then
        (let mid' = mn + (mx - mn) div 2 in
         case getComparator a of
           Inl p \<Rightarrow> Inl p
         | Inr c \<Rightarrow>
             if mid' < 0 \<or> mid' \<ge> int (length (array a)) then Inl IndexOutOfRange
             else
               (let cmp' = c v (array a ! nat mid') in
                if cmp' < 0 then binSearch_loop a v mn (mid' - 1) mid' cmp'
                else if cmp' > 0 then binSearch_loop a v (mid' + 1) mx mid' cmp'
                else Inr (mid', cmp')))
      else Inr (mid, cmp))"
  by pat_completeness auto
termination
  by (relation "measure (\<lambda>(a, v, mn, mx, mid, cmp). nat (mx - mn + 1))") auto

definition binSearch :: "'a SortedArray \<Rightarrow> 'a \<Rightarrow> panic + (int \<times> int)" where
  "binSearch a v =
     (if length (array a) = 0 then Inr (- 1, - 2)
      else binSearch_loop a v 0 (int (length (array a)) - 1) 0 (- 2))"

definition Search :: "'a SortedArray \<Rightarrow> 'a \<Rightarrow> panic + int" where
  "Search a v =
     (case binSearch a v of
        Inl p \<Rightarrow> Inl p
      | Inr (i, r) \<Rightarrow> if r = 0 then Inr i else Inr (- 1))"

text \<open>The loop of \<open>Append\<close> over \<open>values\<close>.\<close>

fun Append_loop :: "'a SortedArray \<Rightarrow> 'a list \<Rightarrow> panic + 'a SortedArray" where
  "Append_loop a [] = Inr a"
| "Append_loop a (v # vs) =
     (case binSearch a v of
        Inl p \<Rightarrow> Inl p
      | Inr (index, cmp) \<Rightarrow>
          if unique a \<and> cmp = 0 then Append_loop a vs
          else if index < 0 then Append_loop (a\<lparr>array := array a @ [v]\<rparr>) vs
          else
            (let index' = (if cmp > 0 then index + 1 else index) in
             if index' > int (length (array a)) then Inl IndexOutOfRange
             else Append_loop
                    (a\<lparr>array := take (nat index') (array a) @ v # drop (nat index') (array a)\<rparr>) vs))"

definition Append :: "'a SortedArray \<Rightarrow> 'a list \<Rightarrow> panic + 'a SortedArray" where
  "Append a vs = (if length vs = 0 then Inr a else Append_loop a vs)"

definition Add :: "'a SortedArray \<Rightarrow> 'a list \<Rightarrow> panic + 'a SortedArray" where
  "Add a vs = Append a vs"

text \<open>
  \<open>doRemoveWithoutLock\<close> returns \<open>(value, found)\<close>; \<open>None\<close> stands for
  \<open>(zero value, false)\<close>.
\<close>

definition doRemoveWithoutLock :: "'a SortedArray \<Rightarrow> int \<Rightarrow> 'a option \<times> 'a SortedArray" where
  "doRemoveWithoutLock a index =
     (if index < 0 \<or> index \<ge> int (length (array a)) then (None, a)
      else if index = 0 then (Some (array a ! 0), a\<lparr>array := drop 1 (array a)\<rparr>)
      else if index = int (length (array a)) - 1
        then (Some (array a ! nat index), a\<lparr>array := take (nat index) (array a)\<rparr>)
      else (Some (array a ! nat index),
            a\<lparr>array := take (nat index) (array a) @ drop (nat index + 1) (array a)\<rparr>))"

definition Remove :: "'a SortedArray \<Rightarrow> int \<Rightarrow> 'a option \<times> 'a SortedArray" where
  "Remove a index = doRemoveWithoutLock a index"

definition RemoveValue :: "'a SortedArray \<Rightarrow> 'a \<Rightarrow> panic + (bool \<times> 'a SortedArray)" where
  "RemoveValue a v =
     (case binSearch a v of
        Inl p \<Rightarrow> Inl p
      | Inr (i, r) \<Rightarrow>
          if r = 0 then (case doRemoveWithoutLock a i of (res, a') \<Rightarrow> Inr (res \<noteq> None, a'))
          else Inr (False, a))"

fun RemoveValues :: "'a SortedArray \<Rightarrow> 'a list \<Rightarrow> panic + 'a SortedArray" where
  "RemoveValues a [] = Inr a"
| "RemoveValues a (v # vs) =
     (case binSearch a v of
        Inl p \<Rightarrow> Inl p
      | Inr (i, r) \<Rightarrow>
          if r = 0 then RemoveValues (snd (doRemoveWithoutLock a i)) vs
          else RemoveValues a vs)"

definition PopLeft :: "'a SortedArray \<Rightarrow> 'a option \<times> 'a SortedArray" where
  "PopLeft a =
     (if length (array a) = 0 then (None, a)
      else (Some (array a ! 0), a\<lparr>array := drop 1 (array a)\<rparr>))"

definition PopRight :: "'a SortedArray \<Rightarrow> 'a option \<times> 'a SortedArray" where
  "PopRight a =
     (let index = int (length (array a)) - 1 in
      if index < 0 then (None, a)
      else (Some (array a ! nat index), a\<lparr>array := take (nat index) (array a)\<rparr>))"

text \<open>
  \<open>PopRands\<close> draws its indices from \<open>grand.Intn\<close>, which is not part of the sources
  at hand: \<open>intn k n\<close> is what the \<open>k\<close>-th call returns when asked for a number below
  \<open>n\<close>. Nothing is assumed of it. The result slice is \<open>nil\<close> (here \<open>[]\<close>) when nothing
  is popped.
\<close>

fun PopRands_loop ::
  "(nat \<Rightarrow> int \<Rightarrow> int) \<Rightarrow> 'a SortedArray \<Rightarrow> nat \<Rightarrow> nat \<Rightarrow> 'a option list \<times> 'a SortedArray" where
  "PopRands_loop intn a i 0 = ([], a)"
| "PopRands_loop intn a i (Suc n) =
     (case doRemoveWithoutLock a (intn i (int (length (array a)))) of
        (r, a') \<Rightarrow> (case PopRands_loop intn a' (Suc i) n of (rs, a'') \<Rightarrow> (r # rs, a'')))"

definition PopRands ::
  "(nat \<Rightarrow> int \<Rightarrow> int) \<Rightarrow> 'a SortedArray \<Rightarrow> int \<Rightarrow> 'a option list \<times> 'a SortedArray" where
  "PopRands intn a sz =
     (if sz \<le> 0 \<or> length (array a) = 0 then ([], a)
      else PopRands_loop intn a 0
             (if sz \<ge> int (length (array a)) then length (array a) else nat sz))"

text \<open>\<open>Merge(array)\<close> is \<open>a.Add(array.Slice()...)\<close>; the argument here is that slice.\<close>

definition Merge :: "'a SortedArray \<Rightarrow> 'a list \<Rightarrow> panic + 'a SortedArray" where
  "Merge a slice = Add a slice"

text \<open>The loop of \<open>Unique\<close>, on the array and the loop variable \<open>i\<close>.\<close>

function Unique_loop :: "'a SortedArray \<Rightarrow> nat \<Rightarrow> panic + 'a SortedArray" where
  "Unique_loop a i =
     (if int i = int (length (array a)) - 1 then Inr a
      else
        (case getComparator a of
           Inl p \<Rightarrow> Inl p
         | Inr c \<Rightarrow>
             if i + 1 \<ge> length (array a) then Inl IndexOutOfRange
             else if c (array a ! i) (array a ! (i + 1)) = 0
               then Unique_loop (a\<lparr>array := take (i + 1) (array a) @ drop (i + 2) (array a)\<rparr>) i
             else Unique_loop a (i + 1)))"
  by pat_completeness auto
termination
  by (relation "measure (\<lambda>(a, i). length (array a) - i)") auto

definition Unique :: "'a SortedArray \<Rightarrow> panic + 'a SortedArray" where
  "Unique a = (if length (array a) = 0 then Inr a else Unique_loop a 0)"

text \<open>
  \<open>sort.Slice\<close> belongs to Go's standard library. On slices of at most twelve elements
  it is the insertion sort below (\<open>insertionSortLessFunc\<close>): the element at \<open>i\<close> moves
  down while \<open>less(j, j-1)\<close> holds. \<open>insertion_inner\<close> takes the sorted prefix in reverse.
  Longer slices go through the library's quicksort, which compares as soon as there are
  two elements just the same; the model sorts them by insertion too. The \<open>less\<close> closure
  of the sorted array calls \<open>a.getComparator()\<close> at every comparison.
\<close>

fun insertion_inner :: "'a SortedArray \<Rightarrow> 'a list \<Rightarrow> 'a \<Rightarrow> panic + 'a list" where
  "insertion_inner a [] x = Inr [x]"
| "insertion_inner a (y # rev_prefix) x =
     (case getComparator a of
        Inl p \<Rightarrow> Inl p
      | Inr c \<Rightarrow>
          if c x y < 0
          then (case insertion_inner a rev_prefix x of Inl p \<Rightarrow> Inl p | Inr r \<Rightarrow> Inr (y # r))
          else Inr (x # y # rev_prefix))"

fun sort_Slice_loop :: "'a SortedArray \<Rightarrow> 'a list \<Rightarrow> 'a list \<Rightarrow> panic + 'a list" where
  "sort_Slice_loop a rev_prefix [] = Inr (rev rev_prefix)"
| "sort_Slice_loop a rev_prefix (x # xs) =
     (case insertion_inner a rev_prefix x of
        Inl p \<Rightarrow> Inl p
      | Inr r \<Rightarrow> sort_Slice_loop a r xs)"

definition SetArray :: "'a SortedArray \<Rightarrow> 'a list \<Rightarrow> panic + 'a SortedArray" where
  "SetArray a xs =
     (case sort_Slice_loop a [] xs of
        Inl p \<Rightarrow> Inl p
      | Inr sorted_xs \<Rightarrow> Inr (a\<lparr>array := sorted_xs\<rparr>))"

section \<open>glist: the doubly linked list\<close>

text \<open>
  \<open>List[T]\<close> and \<open>Element[T]\<close> of \<open>glist.go\<close>, on an explicit heap. A list is known by
  its address (a \<open>nat\<close>); \<open>Root l\<close> is the address of its sentinel \<open>l.root\<close>, and
  \<open>Node n\<close> the address of an element made by \<open>&Element[T]{Value: v}\<close>. A pointer
  \<open>*Element[T]\<close> is a \<open>ref option\<close>, \<open>None\<close> being nil; a \<open>*List[T]\<close> field is a
  \<open>nat option\<close>. The mutex is left out: the model is of one goroutine.
\<close>

datatype ref = Root nat | Node nat

record 'a Element =
  e_next :: "ref option"
  e_prev :: "ref option"
  e_list :: "nat option"
  Value :: 'a

text \<open>
  The heap holds every element and every list's \<open>len\<close>. \<open>mu_safe l\<close> says that the
  mutex \<open>l.mu\<close> is a real lock, as \<open>rwmutex.Create(true)\<close> makes it; otherwise locking
  is a no-op. \<open>next_elem\<close> and \<open>next_list\<close>
  are the addresses the next allocation of an element and of a list will use. \<open>len\<close> is
  a Go \<open>int\<close>; it would take more than \<open>2^63\<close> elements to overflow it, so \<open>int\<close>
  stands for it.
\<close>

record 'a heap =
  elem :: "ref \<Rightarrow> 'a Element"
  len :: "nat \<Rightarrow> int"
  mu_safe :: "nat \<Rightarrow> bool"
  next_elem :: nat
  next_list :: nat

text \<open>\<open>z\<close> is the zero value of the element type \<open>T\<close>.\<close>

definition zero_Element :: "'a \<Rightarrow> 'a Element" where
  "zero_Element z = \<lparr>e_next = None, e_prev = None, e_list = None, Value = z\<rparr>"

definition empty_heap :: "'a \<Rightarrow> 'a heap" where
  "empty_heap z = \<lparr>elem = (\<lambda>r. zero_Element z), len = (\<lambda>l. 0),
                  mu_safe = (\<lambda>l. False), next_elem = 0, next_list = 0\<rparr>"

text \<open>The assignments \<open>r.next = p\<close>, \<open>r.prev = p\<close>, \<open>r.list = q\<close> and \<open>l.len = n\<close>.\<close>

definition set_next :: "ref \<Rightarrow> ref option \<Rightarrow> 'a heap \<Rightarrow> 'a heap" where
  "set_next r p h = h\<lparr>elem := (elem h)(r := (elem h r)\<lparr>e_next := p\<rparr>)\<rparr>"

definition set_prev :: "ref \<Rightarrow> ref option \<Rightarrow> 'a heap \<Rightarrow> 'a heap" where
  "set_prev r p h = h\<lparr>elem := (elem h)(r := (elem h r)\<lparr>e_prev := p\<rparr>)\<rparr>"

definition set_list :: "ref \<Rightarrow> nat option \<Rightarrow> 'a heap \<Rightarrow> 'a heap" where
  "set_list r p h = h\<lparr>elem := (elem h)(r := (elem h r)\<lparr>e_list := p\<rparr>)\<rparr>"

definition set_len :: "nat \<Rightarrow> int \<Rightarrow> 'a heap \<Rightarrow> 'a heap" where
  "set_len l n h = h\<lparr>len := (len h)(l := n)\<rparr>"

definition Init :: "nat \<Rightarrow> 'a heap \<Rightarrow> 'a heap" where
  "Init l h = set_len l 0 (set_prev (Root l) (Some (Root l)) (set_next (Root l) (Some (Root l)) h))"

text \<open>\<open>New[T](safe ...bool)\<close>: \<open>sf\<close> is true when \<open>safe\<close> is given and true.\<close>

definition New :: "'a \<Rightarrow> bool \<Rightarrow> 'a heap \<Rightarrow> nat \<times> 'a heap" where
  "New z sf h =
     (let l = next_list h;
          h1 = h\<lparr>elem := (elem h)(Root l := zero_Element z), len := (len h)(l := 0),
                 mu_safe := (mu_safe h)(l := sf), next_list := Suc l\<rparr>
      in (l, Init l h1))"

definition lazyInit :: "nat \<Rightarrow> 'a heap \<Rightarrow> 'a heap" where
  "lazyInit l h = (if e_next (elem h (Root l)) = None then Init l h else h)"

text \<open>
  A method that dereferences a pointer returns an \<open>option\<close>: \<open>None\<close> says that the
  call does not return, by the runtime panic of a nil dereference or (in
  \<open>UnmarshalJSON\<close> only) by blocking for ever on the list's own lock. So
  \<open>Next e h = Some None\<close> says that \<open>e.Next()\<close> returned nil, and \<open>Next e h = None\<close>
  that it panicked.
\<close>

definition Next :: "ref option \<Rightarrow> 'a heap \<Rightarrow> ref option option" where
  "Next e h = do {
     e0 \<leftarrow> e;
     let p = e_next (elem h e0);
     Some (case e_list (elem h e0) of
             None \<Rightarrow> None
           | Some l \<Rightarrow> if p \<noteq> Some (Root l) then p else None)
   }"

definition Prev :: "ref option \<Rightarrow> 'a heap \<Rightarrow> ref option option" where
  "Prev e h = do {
     e0 \<leftarrow> e;
     let p = e_prev (elem h e0);
     Some (case e_list (elem h e0) of
             None \<Rightarrow> None
           | Some l \<Rightarrow> if p \<noteq> Some (Root l) then p else None)
   }"

definition List_Len :: "nat \<Rightarrow> 'a heap \<Rightarrow> int" where
  "List_Len l h = len h l"

definition Size :: "nat \<Rightarrow> 'a heap \<Rightarrow> int" where
  "Size l h = List_Len l h"

definition Front :: "nat \<Rightarrow> 'a heap \<Rightarrow> ref option" where
  "Front l h = (if len h l = 0 then None else e_next (elem h (Root l)))"

definition Back :: "nat \<Rightarrow> 'a heap \<Rightarrow> ref option" where
  "Back l h = (if len h l = 0 then None else e_prev (elem h (Root l)))"

text \<open>
  The unexported \<open>insert\<close>, \<open>remove\<close> and \<open>move\<close>, statement by statement
  (\<open>insertE\<close> and \<open>removeE\<close>: the plain names are taken in HOL).
\<close>

definition insertE :: "nat \<Rightarrow> ref option \<Rightarrow> ref option \<Rightarrow> 'a heap \<Rightarrow> (ref option \<times> 'a heap) option" where
  "insertE l e at h = do {
     e0 \<leftarrow> e;
     let h1 = set_prev e0 at h;
     at0 \<leftarrow> at;
     let h2 = set_next e0 (e_next (elem h1 at0)) h1;
     p \<leftarrow> e_prev (elem h2 e0);
     let h3 = set_next p (Some e0) h2;
     n \<leftarrow> e_next (elem h3 e0);
     let h4 = set_prev n (Some e0) h3;
     let h5 = set_list e0 (Some l) h4;
     Some (Some e0, set_len l (len h5 l + 1) h5)
   }"

definition insertValue :: "nat \<Rightarrow> 'a \<Rightarrow> ref option \<Rightarrow> 'a heap \<Rightarrow> (ref option \<times> 'a heap) option" where
  "insertValue l v at h =
     (let e0 = Node (next_elem h);
          h1 = h\<lparr>elem := (elem h)(e0 := \<lparr>e_next = None, e_prev = None, e_list = None, Value = v\<rparr>),
                 next_elem := Suc (next_elem h)\<rparr>
      in insertE l (Some e0) at h1)"

definition removeE :: "nat \<Rightarrow> ref option \<Rightarrow> 'a heap \<Rightarrow> 'a heap option" where
  "removeE l e h = do {
     e0 \<leftarrow> e;
     p \<leftarrow> e_prev (elem h e0);
     let h1 = set_next p (e_next (elem h e0)) h;
     n \<leftarrow> e_next (elem h1 e0);
     let h2 = set_prev n (e_prev (elem h1 e0)) h1;
     let h3 = set_next e0 None h2;
     let h4 = set_prev e0 None h3;
     let h5 = set_list e0 None h4;
     Some (set_len l (len h5 l - 1) h5)
   }"

definition move :: "ref option \<Rightarrow> ref option \<Rightarrow> 'a heap \<Rightarrow> 'a heap option" where
  "move e at h =
     (if e = at then Some h
      else do {
        e0 \<leftarrow> e;
        p \<leftarrow> e_prev (elem h e0);
        let h1 = set_next p (e_next (elem h e0)) h;
        n \<leftarrow> e_next (elem h1 e0);
        let h2 = set_prev n (e_prev (elem h1 e0)) h1;
        let h3 = set_prev e0 at h2;
        at0 \<leftarrow> at;
        let h4 = set_next e0 (e_next (elem h3 at0)) h3;
        p' \<leftarrow> e_prev (elem h4 e0);
        let h5 = set_next p' (Some e0) h4;
        n' \<leftarrow> e_next (elem h5 e0);
        Some (set_prev n' (Some e0) h5)
      })"

text \<open>
  The loop of \<open>search\<close>, on the loop variables \<open>i\<close> and \<open>e\<close>. \<open>e.Value == value\<close> is HOL
  equality, which always returns: an element type whose \<open>==\<close> can panic (an interface
  holding a value of an uncomparable type) is outside the model.
\<close>

function search_loop :: "nat \<Rightarrow> 'a \<Rightarrow> int \<Rightarrow> ref option \<Rightarrow> 'a heap \<Rightarrow> ref option option" where
  "search_loop l v i e h =
     (if i < len h l then
        (case e of
           None \<Rightarrow> None
         | Some e0 \<Rightarrow>
             if Value (elem h e0) = v then Some e
             else (case Next e h of None \<Rightarrow> None | Some e' \<Rightarrow> search_loop l v (i + 1) e' h))
      else Some None)"
  by pat_completeness auto

termination
  by (relation "measure (\<lambda>(l, v, i, e, h). nat (len h l - i))") auto

declare search_loop.simps [simp del]

definition search :: "nat \<Rightarrow> 'a \<Rightarrow> 'a heap \<Rightarrow> ref option option" where
  "search l v h =
     (if len h l > 0 then search_loop l v 0 (e_next (elem h (Root l))) h else Some None)"

text \<open>
  \<open>Remove(values ...T)\<close> takes values, not handles: it removes the first element equal
  to each value. (\<open>List_Remove\<close>, \<open>List_Len\<close>: the plain names are the sorted array's.)
\<close>

fun List_Remove_loop :: "nat \<Rightarrow> 'a list \<Rightarrow> bool \<Rightarrow> 'a heap \<Rightarrow> (bool \<times> 'a heap) option" where
  "List_Remove_loop l [] changed h = Some (changed, h)"
| "List_Remove_loop l (v # vs) changed h =
     (case search l v h of
        None \<Rightarrow> None
      | Some None \<Rightarrow> List_Remove_loop l vs changed h
      | Some (Some e0) \<Rightarrow>
          (case removeE l (Some e0) h of
             None \<Rightarrow> None
           | Some h' \<Rightarrow> List_Remove_loop l vs True h'))"

definition List_Remove :: "nat \<Rightarrow> 'a list \<Rightarrow> 'a heap \<Rightarrow> (bool \<times> 'a heap) option" where
  "List_Remove l vs h = List_Remove_loop l vs False h"

definition PushBack :: "nat \<Rightarrow> 'a \<Rightarrow> 'a heap \<Rightarrow> (ref option \<times> 'a heap) option" where
  "PushBack l v h = (let h1 = lazyInit l h in insertValue l v (e_prev (elem h1 (Root l))) h1)"

definition PushFront :: "nat \<Rightarrow> 'a \<Rightarrow> 'a heap \<Rightarrow> (ref option \<times> 'a heap) option" where
  "PushFront l v h = (let h1 = lazyInit l h in insertValue l v (Some (Root l)) h1)"

text \<open>\<open>PopBack\<close> and \<open>PopFront\<close> return the named result \<open>value\<close>, initially \<open>z\<close>.\<close>

definition PopBack :: "'a \<Rightarrow> nat \<Rightarrow> 'a heap \<Rightarrow> ('a \<times> 'a heap) option" where
  "PopBack z l h =
     (let h1 = lazyInit l h in
      case e_prev (elem h1 (Root l)) of
        None \<Rightarrow> Some (z, h1)
      | Some e0 \<Rightarrow>
          (let v = Value (elem h1 e0) in
           if e_list (elem h1 e0) = Some l
           then (case removeE l (Some e0) h1 of None \<Rightarrow> None | Some h2 \<Rightarrow> Some (v, h2))
           else Some (v, h1)))"

definition PopFront :: "'a \<Rightarrow> nat \<Rightarrow> 'a heap \<Rightarrow> ('a \<times> 'a heap) option" where
  "PopFront z l h =
     (let h1 = lazyInit l h in
      case e_next (elem h1 (Root l)) of
        None \<Rightarrow> Some (z, h1)
      | Some e0 \<Rightarrow>
          (let v = Value (elem h1 e0) in
           if e_list (elem h1 e0) = Some l
           then (case removeE l (Some e0) h1 of None \<Rightarrow> None | Some h2 \<Rightarrow> Some (v, h2))
           else Some (v, h1)))"

text \<open>
  The loop of \<open>FrontAll\<close> writes \<open>values[i] = e.Value\<close> for \<open>i\<close> from \<open>0\<close> up to
  \<open>length\<close>; the model returns the values in that order. A nil slice is \<open>[]\<close>.
\<close>

function FrontAll_loop :: "int \<Rightarrow> int \<Rightarrow> ref option \<Rightarrow> 'a heap \<Rightarrow> 'a list option" where
  "FrontAll_loop n i e h =
     (if i < n then
        (case e of
           None \<Rightarrow> None
         | Some e0 \<Rightarrow>
             (case Next e h of
                None \<Rightarrow> None
              | Some e' \<Rightarrow>
                  (case FrontAll_loop n (i + 1) e' h of
                     None \<Rightarrow> None
                   | Some vs \<Rightarrow> Some (Value (elem h e0) # vs))))
      else Some [])"
  by pat_completeness auto

termination
  by (relation "measure (\<lambda>(n, i, e, h). nat (n - i))") auto

declare FrontAll_loop.simps [simp del]

definition FrontAll :: "nat \<Rightarrow> 'a heap \<Rightarrow> ('a list \<times> 'a heap) option" where
  "FrontAll l h =
     (let h1 = lazyInit l h; n = List_Len l h1 in
      if n > 0
      then (case FrontAll_loop n 0 (e_next (elem h1 (Root l))) h1 of
              None \<Rightarrow> None
            | Some vs \<Rightarrow> Some (vs, h1))
      else Some ([], h1))"

text \<open>
  The positional operations. Each first compares the handle's \<open>list\<close> field with the
  receiver and returns without touching the list when they differ.
\<close>

definition InsertBefore :: "nat \<Rightarrow> ref option \<Rightarrow> 'a \<Rightarrow> 'a heap \<Rightarrow> (ref option \<times> 'a heap) option" where
  "InsertBefore l mark v h = do {
     m \<leftarrow> mark;
     if e_list (elem h m) \<noteq> Some l then Some (None, h)
     else insertValue l v (e_prev (elem h m)) h
   }"

definition InsertAfter :: "nat \<Rightarrow> ref option \<Rightarrow> 'a \<Rightarrow> 'a heap \<Rightarrow> (ref option \<times> 'a heap) option" where
  "InsertAfter l mark v h = do {
     m \<leftarrow> mark;
     if e_list (elem h m) \<noteq> Some l then Some (None, h)
     else insertValue l v mark h
   }"

definition MoveToFront :: "nat \<Rightarrow> ref option \<Rightarrow> 'a heap \<Rightarrow> 'a heap option" where
  "MoveToFront l e h = do {
     e0 \<leftarrow> e;
     if e_list (elem h e0) \<noteq> Some l \<or> e_next (elem h (Root l)) = e then Some h
     else move e (Some (Root l)) h
   }"

definition MoveToBack :: "nat \<Rightarrow> ref option \<Rightarrow> 'a heap \<Rightarrow> 'a heap option" where
  "MoveToBack l e h = do {
     e0 \<leftarrow> e;
     if e_list (elem h e0) \<noteq> Some l \<or> e_prev (elem h (Root l)) = e then Some h
     else move e (e_prev (elem h (Root l))) h
   }"

definition MoveBefore :: "nat \<Rightarrow> ref option \<Rightarrow> ref option \<Rightarrow> 'a heap \<Rightarrow> 'a heap option" where
  "MoveBefore l e mark h = do {
     e0 \<leftarrow> e;
     if e_list (elem h e0) \<noteq> Some l \<or> e = mark then Some h
     else do {
       m \<leftarrow> mark;
       if e_list (elem h m) \<noteq> Some l then Some h
       else move e (e_prev (elem h m)) h
     }
   }"

definition MoveAfter :: "nat \<Rightarrow> ref option \<Rightarrow> ref option \<Rightarrow> 'a heap \<Rightarrow> 'a heap option" where
  "MoveAfter l e mark h = do {
     e0 \<leftarrow> e;
     if e_list (elem h e0) \<noteq> Some l \<or> e = mark then Some h
     else do {
       m \<leftarrow> mark;
       if e_list (elem h m) \<noteq> Some l then Some h
       else move e mark h
     }
   }"

text \<open>
  The loops of \<open>PushBackList\<close> and \<open>PushFrontList\<close>: \<open>i\<close> starts at \<open>other.len\<close>, read
  once before the loop, and \<open>e.Next()\<close> (\<open>e.Prev()\<close>) is taken after each insertion.
\<close>

function PushBackList_loop :: "nat \<Rightarrow> int \<Rightarrow> ref option \<Rightarrow> 'a heap \<Rightarrow> 'a heap option" where
  "PushBackList_loop l i e h =
     (if i > 0 then
        (case e of
           None \<Rightarrow> None
         | Some e0 \<Rightarrow>
             (case insertValue l (Value (elem h e0)) (e_prev (elem h (Root l))) h of
                None \<Rightarrow> None
              | Some (r, h1) \<Rightarrow>
                  (case Next e h1 of
                     None \<Rightarrow> None
                   | Some e' \<Rightarrow> PushBackList_loop l (i - 1) e' h1)))
      else Some h)"
  by pat_completeness auto

termination
  by (relation "measure (\<lambda>(l, i, e, h). nat i)") auto

declare PushBackList_loop.simps [simp del]

definition PushBackList :: "nat \<Rightarrow> nat \<Rightarrow> 'a heap \<Rightarrow> 'a heap option" where
  "PushBackList l other h =
     (let h1 = lazyInit l h in
      PushBackList_loop l (len h1 other) (e_next (elem h1 (Root other))) h1)"

function PushFrontList_loop :: "nat \<Rightarrow> int \<Rightarrow> ref option \<Rightarrow> 'a heap \<Rightarrow> 'a heap option" where
  "PushFrontList_loop l i e h =
     (if i > 0 then
        (case e of
           None \<Rightarrow> None
         | Some e0 \<Rightarrow>
             (case insertValue l (Value (elem h e0)) (Some (Root l)) h of
                None \<Rightarrow> None
              | Some (r, h1) \<Rightarrow>
                  (case Prev e h1 of
                     None \<Rightarrow> None
                   | Some e' \<Rightarrow> PushFrontList_loop l (i - 1) e' h1)))
      else Some h)"
  by pat_completeness auto

termination
  by (relation "measure (\<lambda>(l, i, e, h). nat i)") auto

declare PushFrontList_loop.simps [simp del]

definition PushFrontList :: "nat \<Rightarrow> nat \<Rightarrow> 'a heap \<Rightarrow> 'a heap option" where
  "PushFrontList l other h =
     (let h1 = lazyInit l h in
      PushFrontList_loop l (len h1 other) (e_prev (elem h1 (Root other))) h1)"

definition Clear :: "nat \<Rightarrow> 'a heap \<Rightarrow> 'a heap" where
  "Clear l h = Init l h"

text \<open>\<open>for _, v := range array { l.PushBack(v) }\<close>, as in \<open>NewFrom\<close>.\<close>

fun PushBack_each :: "nat \<Rightarrow> 'a list \<Rightarrow> 'a heap \<Rightarrow> 'a heap option" where
  "PushBack_each l [] h = Some h"
| "PushBack_each l (v # vs) h =
     (case PushBack l v h of None \<Rightarrow> None | Some (e, h1) \<Rightarrow> PushBack_each l vs h1)"

definition NewFrom :: "'a \<Rightarrow> 'a list \<Rightarrow> bool \<Rightarrow> 'a heap \<Rightarrow> (nat \<times> 'a heap) option" where
  "NewFrom z arr sf h =
     (case New z sf h of (l, h1) \<Rightarrow>
        (case PushBack_each l arr h1 of None \<Rightarrow> None | Some h2 \<Rightarrow> Some (l, h2)))"

text \<open>
  \<open>MarshalJSON\<close> has a value receiver: the call copies the \<open>List\<close> struct (its sentinel
  and \<open>len\<close>) to a fresh address and runs \<open>FrontAll\<close> on the copy. \<open>json.Marshal\<close> and
  \<open>json.UnmarshalUseNumber\<close> wrap \<open>encoding/json\<close> and are not part of the sources at
  hand; they are parameters, \<open>Inl\<close> their error.
\<close>

definition MarshalJSON ::
  "('a list \<Rightarrow> 'e + string) \<Rightarrow> nat \<Rightarrow> 'a heap \<Rightarrow> (('e + string) \<times> 'a heap) option" where
  "MarshalJSON json_Marshal l h =
     (let l' = next_list h;
          h1 = h\<lparr>elem := (elem h)(Root l' := elem h (Root l)), len := (len h)(l' := len h l),
                 mu_safe := (mu_safe h)(l' := mu_safe h l), next_list := Suc l'\<rparr>
      in case FrontAll l' h1 of
           None \<Rightarrow> None
         | Some (vs, h2) \<Rightarrow> Some (json_Marshal vs, h2))"

text \<open>
  \<open>UnmarshalJSON\<close> takes \<open>l.mu.Lock()\<close> for its whole body and, holding it, calls the
  public \<open>l.PushBack(v)\<close> for each value, which starts with \<open>l.mu.RLock()\<close>. A read lock
  requested by the holder of the write lock of the same mutex is never granted (the
  lock of the spec is exclusive for writers, and Go's \<open>sync.RWMutex\<close> is not reentrant):
  the call returns only when the mutex is the no-op of a list that is not
  concurrency-safe.
\<close>

definition RLock_while_locked :: "bool \<Rightarrow> 'r option \<Rightarrow> 'r option" where
  "RLock_while_locked safe call = (if safe then None else call)"

fun PushBack_each_locked :: "nat \<Rightarrow> 'a list \<Rightarrow> 'a heap \<Rightarrow> 'a heap option" where
  "PushBack_each_locked l [] h = Some h"
| "PushBack_each_locked l (v # vs) h =
     (case RLock_while_locked (mu_safe h l) (PushBack l v h) of
        None \<Rightarrow> None
      | Some (e, h1) \<Rightarrow> PushBack_each_locked l vs h1)"

definition UnmarshalJSON ::
  "(string \<Rightarrow> 'e + 'a list) \<Rightarrow> nat \<Rightarrow> string \<Rightarrow> 'a heap \<Rightarrow> ('e option \<times> 'a heap) option" where
  "UnmarshalJSON json_Unmarshal l b h =
     (let h1 = lazyInit l h in
      case json_Unmarshal b of
        Inl err \<Rightarrow> Some (Some err, h1)
      | Inr arr \<Rightarrow>
          (case PushBack_each_locked l arr h1 of
             None \<Rightarrow> None
           | Some h2 \<Rightarrow> Some (None, h2)))"

section \<open>gtree: the AVL tree\<close>

text \<open>
  Modelled from the spec: \<open>comparator.ComparatorString\<close>, which is not among the sources
  at hand. The spec's comparator contract is a total order returning \<open>-1\<close>, \<open>0\<close> or \<open>1\<close>;
  on strings it is the order of Go's \<open>strings.Compare\<close>, byte by byte.
\<close>

fun ComparatorString :: "string \<Rightarrow> string \<Rightarrow> int" where
  "ComparatorString [] [] = 0"
| "ComparatorString [] (y # ys) = - 1"
| "ComparatorString (x # xs) [] = 1"
| "ComparatorString (x # xs) (y # ys) =
     (if (of_char x :: nat) < of_char y then - 1
      else if (of_char x :: nat) > of_char y then 1
      else ComparatorString xs ys)"

text \<open>
  Modelled from the spec: the AVL tree of \<open>gtree\<close>, of which the sources at hand hold only
  the example test. A node owns its key, its value, its two subtrees and its height.
  \<open>Put\<close> follows section 4.1 of the spec: search by the comparator; an existing key has
  its value replaced in place; a new key becomes a leaf, and on the way back to the root
  the heights are updated and an unbalanced node is rotated, the case (left-left,
  left-right, right-right, right-left) chosen by the balance of the node and of its
  taller child.
\<close>

datatype ('k, 'v) AVLTree =
    Empty
  | AVLNode "('k, 'v) AVLTree" 'k 'v nat "('k, 'v) AVLTree"

fun height :: "('k, 'v) AVLTree \<Rightarrow> nat" where
  "height Empty = 0"
| "height (AVLNode l k v h r) = h"

definition node :: "('k, 'v) AVLTree \<Rightarrow> 'k \<Rightarrow> 'v \<Rightarrow> ('k, 'v) AVLTree \<Rightarrow> ('k, 'v) AVLTree" where
  "node l k v r = AVLNode l k v (max (height l) (height r) + 1) r"

fun rotate_right :: "('k, 'v) AVLTree \<Rightarrow> ('k, 'v) AVLTree" where
  "rotate_right (AVLNode (AVLNode a xk xv xh b) yk yv yh c) = node a xk xv (node b yk yv c)"
| "rotate_right t = t"

fun rotate_left :: "('k, 'v) AVLTree \<Rightarrow> ('k, 'v) AVLTree" where
  "rotate_left (AVLNode a xk xv xh (AVLNode b yk yv yh c)) = node (node a xk xv b) yk yv c"
| "rotate_left t = t"

fun left :: "('k, 'v) AVLTree \<Rightarrow> ('k, 'v) AVLTree" where
  "left Empty = Empty" | "left (AVLNode l k v h r) = l"

fun right :: "('k, 'v) AVLTree \<Rightarrow> ('k, 'v) AVLTree" where
  "right Empty = Empty" | "right (AVLNode l k v h r) = r"

fun rebalance :: "('k, 'v) AVLTree \<Rightarrow> ('k, 'v) AVLTree" where
  "rebalance Empty = Empty"
| "rebalance (AVLNode l k v h r) =
     (if height l > height r + 1 then
        (if height (left l) \<ge> height (right l) then rotate_right (AVLNode l k v h r)
         else rotate_right (node (rotate_left l) k v r))
      else if height r > height l + 1 then
        (if height (right r) \<ge> height (left r) then rotate_left (AVLNode l k v h r)
         else rotate_left (node l k v (rotate_right r)))
      else AVLNode l k v h r)"

fun Put :: "('k \<Rightarrow> 'k \<Rightarrow> int) \<Rightarrow> 'k \<Rightarrow> 'v \<Rightarrow> ('k, 'v) AVLTree \<Rightarrow> ('k, 'v) AVLTree" where
  "Put c k v Empty = node Empty k v Empty"
| "Put c k v (AVLNode l k' v' h r) =
     (if c k k' = 0 then AVLNode l k' v h r
      else if c k k' < 0 then rebalance (node (Put c k v l) k' v' r)
      else rebalance (node l k' v' (Put c k v r)))"

text \<open>
  Modelled from the spec: the tree's \<open>String\<close> rendering, fixed by the diagrams of the
  spec: the right subtree is drawn above its node and the left subtree below it, one
  line per key, each level indented by four columns; the root and every left child hang
  on a corner opening upwards, every right child on a corner opening downwards, and a
  vertical bar runs through the levels between a node and its subtree on the far side.
  The box-drawing characters are written as their UTF-8 bytes.
\<close>

definition bar_gap :: string where
  "bar_gap = [CHR 0xE2, CHR 0x94, CHR 0x82] @ ''   ''"

definition gap :: string where
  "gap = ''    ''"

definition branch_up :: string where
  "branch_up = [CHR 0xE2, CHR 0x94, CHR 0x8C, CHR 0xE2, CHR 0x94, CHR 0x80, CHR 0xE2, CHR 0x94, CHR 0x80] @ '' ''"

definition branch_down :: string where
  "branch_down = [CHR 0xE2, CHR 0x94, CHR 0x94, CHR 0xE2, CHR 0x94, CHR 0x80, CHR 0xE2, CHR 0x94, CHR 0x80] @ '' ''"

fun output_lines :: "(string, 'v) AVLTree \<Rightarrow> string \<Rightarrow> bool \<Rightarrow> string" where
  "output_lines Empty prefix isTail = []"
| "output_lines (AVLNode l k v h r) prefix isTail =
     output_lines r (prefix @ (if isTail then bar_gap else gap)) False
     @ prefix @ (if isTail then branch_down else branch_up) @ k @ [CHR 0x0A]
     @ output_lines l (prefix @ (if isTail then gap else bar_gap)) True"

definition String :: "(string, 'v) AVLTree \<Rightarrow> string" where
  "String t = output_lines t [] True"

text \<open>The tree of \<open>ExampleNewAVLTree\<close>: \<open>key0\<close> to \<open>key5\<close> put in order into an empty tree.\<close>

definition six_keys :: "(string, string) AVLTree" where
  "six_keys = fold (\<lambda>i. Put ComparatorString (''key'' @ i) (''val'' @ i))
                [''0'', ''1'', ''2'', ''3'', ''4'', ''5''] Empty"

section \<open>Specification vocabulary for the sorted array\<close>

text \<open>
  The comparator contract: a comparator is a total preorder given by the sign of its
  result. Swapping the arguments swaps the sign, and \<open>\<le>\<close> is transitive.
\<close>

definition lawful :: "('a \<Rightarrow> 'a \<Rightarrow> int) \<Rightarrow> bool" where
  "lawful c \<longleftrightarrow>
     (\<forall>x y. (c x y < 0) = (c y x > 0)) \<and>
     (\<forall>x y z. c x y \<le> 0 \<and> c y z \<le> 0 \<longrightarrow> c x z \<le> 0)"

text \<open>
  The array is sorted under \<open>c\<close> when every adjacent pair \<open>a[i], a[i+1]\<close> has
  \<open>c(a[i], a[i+1]) \<le> 0\<close>.
\<close>

fun is_sorted :: "('a \<Rightarrow> 'a \<Rightarrow> int) \<Rightarrow> 'a list \<Rightarrow> bool" where
  "is_sorted c (x # y # ys) = (c x y \<le> 0 \<and> is_sorted c (y # ys))"
| "is_sorted c xs = True"

abbreviation le_of :: "('a \<Rightarrow> 'a \<Rightarrow> int) \<Rightarrow> 'a \<Rightarrow> 'a \<Rightarrow> bool" where
  "le_of c \<equiv> (\<lambda>x y. c x y \<le> 0)"

text \<open>
  What \<open>binSearch\<close> returns on a sorted, non-empty array: the last compared index
  \<open>i\<close>, the result \<open>r\<close> of that comparison, and, when the value was not found, that
  everything on the far side of \<open>i\<close> is on the same side of the value.
\<close>

definition post :: "'a SortedArray \<Rightarrow> ('a \<Rightarrow> 'a \<Rightarrow> int) \<Rightarrow> 'a \<Rightarrow> int \<Rightarrow> int \<Rightarrow> bool" where
  "post a c v i r \<longleftrightarrow>
     0 \<le> i \<and> i < int (length (array a)) \<and> r = c v (array a ! nat i) \<and>
     (r < 0 \<longrightarrow> (\<forall>j. 0 \<le> j \<and> j < i \<longrightarrow> c v (array a ! nat j) > 0)) \<and>
     (r > 0 \<longrightarrow> (\<forall>j. i < j \<and> j < int (length (array a)) \<longrightarrow> c v (array a ! nat j) < 0))"

text \<open>
  The operations that change a sorted array without sorting it, as data, and a run of
  them. \<open>intn\<close> stands for \<open>grand.Intn\<close>.
\<close>

datatype 'a sorted_op =
    OpAppend "'a list" | OpAdd "'a list" | OpRemove int | OpRemoveValue 'a | OpRemoveValues "'a list"
  | OpPopLeft | OpPopRight | OpPopRands int | OpMerge "'a list"

fun apply_op :: "(nat \<Rightarrow> int \<Rightarrow> int) \<Rightarrow> 'a SortedArray \<Rightarrow> 'a sorted_op \<Rightarrow> panic + 'a SortedArray" where
  "apply_op intn a (OpAppend vs) = Append a vs"
| "apply_op intn a (OpAdd vs) = Add a vs"
| "apply_op intn a (OpRemove i) = Inr (snd (Remove a i))"
| "apply_op intn a (OpRemoveValue v) = map_sum id snd (RemoveValue a v)"
| "apply_op intn a (OpRemoveValues vs) = RemoveValues a vs"
| "apply_op intn a OpPopLeft = Inr (snd (PopLeft a))"
| "apply_op intn a OpPopRight = Inr (snd (PopRight a))"
| "apply_op intn a (OpPopRands n) = Inr (snd (PopRands intn a n))"
| "apply_op intn a (OpMerge vs) = Merge a vs"

fun apply_ops :: "(nat \<Rightarrow> int \<Rightarrow> int) \<Rightarrow> 'a SortedArray \<Rightarrow> 'a sorted_op list \<Rightarrow> panic + 'a SortedArray" where
  "apply_ops intn a [] = Inr a"
| "apply_ops intn a (x # xs) =
     (case apply_op intn a x of Inl p \<Rightarrow> Inl p | Inr a' \<Rightarrow> apply_ops intn a' xs)"

definition good :: "('a \<Rightarrow> 'a \<Rightarrow> int) \<Rightarrow> 'a SortedArray \<Rightarrow> bool" where
  "good c a \<longleftrightarrow> comparator a = Some c \<and> sorted_wrt (le_of c) (array a)"

text \<open>The usual three-way comparison of integers, for concrete runs.\<close>

definition compare_int :: "int \<Rightarrow> int \<Rightarrow> int" where
  "compare_int x y = (if x < y then - 1 else if x > y then 1 else 0)"

section \<open>Specification vocabulary for the list\<close>

text \<open>
  \<open>chain h a xs b\<close>: following \<open>next\<close> from \<open>a\<close> visits \<open>xs\<close> and then \<open>b\<close>, and
  \<open>prev\<close> leads back. \<open>ring h l ns\<close> is the invariant of an initialised list: the ring
  from the sentinel through the elements \<open>ns\<close> back to the sentinel, \<open>len\<close> equal to
  their number, each element owned by \<open>l\<close>. \<open>is_list\<close> also admits the zero value of
  \<open>List\<close>, which is empty and not yet initialised. \<open>holds h l s\<close>: list \<open>l\<close> holds the
  values \<open>s\<close>, front to back.
\<close>

fun chain :: "'a heap \<Rightarrow> ref \<Rightarrow> ref list \<Rightarrow> ref \<Rightarrow> bool" where
  "chain h a [] b = (e_next (elem h a) = Some b \<and> e_prev (elem h b) = Some a)"
| "chain h a (x # xs) b =
     (e_next (elem h a) = Some x \<and> e_prev (elem h x) = Some a \<and> chain h x xs b)"

definition ring :: "'a heap \<Rightarrow> nat \<Rightarrow> nat list \<Rightarrow> bool" where
  "ring h l ns \<longleftrightarrow>
     chain h (Root l) (map Node ns) (Root l) \<and> distinct ns \<and> len h l = int (length ns) \<and>
     (\<forall>n \<in> set ns. e_list (elem h (Node n)) = Some l \<and> n < next_elem h)"

definition values_of :: "'a heap \<Rightarrow> nat list \<Rightarrow> 'a list" where
  "values_of h ns = map (\<lambda>n. Value (elem h (Node n))) ns"

definition is_list :: "'a heap \<Rightarrow> nat \<Rightarrow> nat list \<Rightarrow> bool" where
  "is_list h l ns \<longleftrightarrow>
     (if e_next (elem h (Root l)) = None then ns = [] \<and> len h l = 0 else ring h l ns)"

definition holds :: "'a heap \<Rightarrow> nat \<Rightarrow> 'a list \<Rightarrow> bool" where
  "holds h l s \<longleftrightarrow> (\<exists>ns. is_list h l ns \<and> values_of h ns = s)"

text \<open>
  \<open>frame l h h'\<close>: going from \<open>h\<close> to \<open>h'\<close> touched only list \<open>l\<close>: other sentinels and
  lengths, the elements of other lists and every stored value are as before.
\<close>

definition frame :: "nat \<Rightarrow> 'a heap \<Rightarrow> 'a heap \<Rightarrow> bool" where
  "frame l h h' \<longleftrightarrow>
     next_elem h \<le> next_elem h' \<and>
     (\<forall>q. q \<noteq> l \<longrightarrow> elem h' (Root q) = elem h (Root q) \<and> len h' q = len h q) \<and>
     (\<forall>n. n < next_elem h \<and> e_list (elem h (Node n)) \<noteq> Some l \<longrightarrow>
          elem h' (Node n) = elem h (Node n)) \<and>
     (\<forall>n. n < next_elem h \<longrightarrow> Value (elem h' (Node n)) = Value (elem h (Node n))) \<and>
     e_list (elem h' (Root l)) = e_list (elem h (Root l)) \<and>
     Value (elem h' (Root l)) = Value (elem h (Root l))"

text \<open>The sentinel of \<open>l\<close> holds the zero value and belongs to no list.\<close>

definition sentinel :: "'a \<Rightarrow> 'a heap \<Rightarrow> nat \<Rightarrow> bool" where
  "sentinel z h l \<longleftrightarrow> e_list (elem h (Root l)) = None \<and> Value (elem h (Root l)) = z"

text \<open>
  The caller's loop \<open>for e := l.Front(); e != nil; e = e.Next()\<close>, collecting
  \<open>e.Value\<close>. \<open>fuel\<close> bounds the number of steps: \<open>None\<close> is a panic or no fuel left.
\<close>

fun traverse :: "nat \<Rightarrow> ref option \<Rightarrow> 'a heap \<Rightarrow> 'a list option" where
  "traverse fuel None h = Some []"
| "traverse 0 (Some e0) h = None"
| "traverse (Suc fuel) (Some e0) h =
     (case Next (Some e0) h of
        None \<Rightarrow> None
      | Some e' \<Rightarrow> map_option ((#) (Value (elem h e0))) (traverse fuel e' h))"

text \<open>
  The JSON text of a list of booleans as \<open>encoding/json\<close> writes it (\<open>null\<close> for a nil
  slice), and its reading back. They serve as a concrete codec.
\<close>

fun join_commas :: "string list \<Rightarrow> string" where
  "join_commas [] = []"
| "join_commas [x] = x"
| "join_commas (x # y # ys) = x @ '','' @ join_commas (y # ys)"

definition json_Marshal_bools :: "bool list \<Rightarrow> string + string" where
  "json_Marshal_bools vs =
     Inr (if vs = [] then ''null''
          else ''['' @ join_commas (map (\<lambda>b. if b then ''true'' else ''false'') vs) @ '']'')"

function json_bools :: "string \<Rightarrow> string + bool list" where
  "json_bools s =
     (if take 5 s = ''true,'' then map_sum id ((#) True) (json_bools (drop 5 s))
      else if take 6 s = ''false,'' then map_sum id ((#) False) (json_bools (drop 6 s))
      else if s = ''true]'' then Inr [True]
      else if s = ''false]'' then Inr [False]
      else Inl ''invalid character'')"
  by pat_completeness auto

termination
proof (relation "measure length")
  show "wf (measure length)" by simp
next
  fix s :: string assume "take 5 s = ''true,''"
  then have "s \<noteq> []" by auto
  then show "(drop 5 s, s) \<in> measure length" by simp
next
  fix s :: string assume "take 6 s = ''false,''"
  then have "s \<noteq> []" by auto
  then show "(drop 6 s, s) \<in> measure length" by simp
qed

declare json_bools.simps [simp del]

definition json_Unmarshal_bools :: "string \<Rightarrow> string + bool list" where
  "json_Unmarshal_bools s =
     (if s = ''null'' \<or> s = ''[]'' then Inr []
      else if take 1 s = ''['' then json_bools (drop 1 s)
      else Inl ''invalid character'')"

text \<open>
  Concrete heaps: \<open>demo_two\<close> has list \<open>0\<close> holding \<open>1, 2\<close> and list \<open>1\<close> holding \<open>3\<close>;
  \<open>demo_same\<close> has lists \<open>0\<close> and \<open>1\<close> each holding \<open>1\<close>; \<open>demo_bools\<close> has list \<open>0\<close>
  holding \<open>true, false\<close>.
\<close>

definition demo_two :: "int heap" where
  "demo_two = snd (the (NewFrom 0 [3] False (snd (the (NewFrom 0 [1, 2] False (empty_heap 0))))))"

definition demo_same :: "int heap" where
  "demo_same = snd (the (NewFrom 0 [1] False (snd (the (NewFrom 0 [1] False (empty_heap 0))))))"

definition demo_bools :: "bool heap" where
  "demo_bools = snd (the (NewFrom False [True, False] False (empty_heap False)))"

section \<open>Properties of the sorted array\<close>

lemma binSearch_nil:
  "comparator a = None \<Longrightarrow> binSearch a v = (if array a = [] then Inr (- 1, - 2) else Inl ComparatorMissing)"
  by (simp add: binSearch_def getComparator_def)

lemma Append_loop_nil_nonempty:
  "comparator a = None \<Longrightarrow> array a \<noteq> [] \<Longrightarrow> vs \<noteq> [] \<Longrightarrow> Append_loop a vs = Inl ComparatorMissing"
  by (cases vs) (simp_all add: binSearch_nil)

lemma Unique_nil:
  "comparator a = None \<Longrightarrow> Unique a = (if length (array a) < 2 then Inr a else Inl ComparatorMissing)"
  by (cases "array a"; simp add: Unique_def getComparator_def)

lemma SetArray_nil:
  "comparator a = None \<Longrightarrow> SetArray a xs = (if length xs < 2 then Inr (a\<lparr>array := xs\<rparr>) else Inl ComparatorMissing)"
  apply (cases xs; simp add: SetArray_def)
  subgoal for x ys by (cases ys; simp add: getComparator_def)
  done

text \<open>
  Claim C7, as amended. Constructing a sorted array with a nil comparator succeeds, and
  \<open>Len\<close> and \<open>Get\<close> work. The panic "comparator is missing" is raised when an
  operation reaches its first comparison, not at its first use: \<open>Append\<close> of one
  value to an empty array stores it, \<open>Search\<close> and \<open>RemoveValue\<close> on an empty array
  answer not-found, and \<open>Unique\<close> and \<open>SetArray\<close> on fewer than two elements succeed;
  on anything larger each of them panics with \<open>ComparatorMissing\<close>.
\<close>

theorem nil_comparator_panics_at_first_comparison:
  assumes "comparator a = None"
  shows "NewSortedArray (comparator a) = \<lparr>array = [], unique = False, comparator = None\<rparr>
    \<and> Len a = int (length (array a))
    \<and> Get a i = (if 0 \<le> i \<and> i < int (length (array a)) then Some (array a ! nat i) else None)
    \<and> Append a vs = (if vs = [] then Inr a
                     else if array a = [] \<and> length vs = 1 then Inr (a\<lparr>array := vs\<rparr>)
                     else Inl ComparatorMissing)
    \<and> Add a vs = Append a vs
    \<and> Search a v = (if array a = [] then Inr (- 1) else Inl ComparatorMissing)
    \<and> RemoveValue a v = (if array a = [] then Inr (False, a) else Inl ComparatorMissing)
    \<and> Unique a = (if length (array a) < 2 then Inr a else Inl ComparatorMissing)
    \<and> SetArray a xs = (if length xs < 2 then Inr (a\<lparr>array := xs\<rparr>) else Inl ComparatorMissing)"
proof -
  have app: "Append a vs = (if vs = [] then Inr a
                     else if array a = [] \<and> length vs = 1 then Inr (a\<lparr>array := vs\<rparr>)
                     else Inl ComparatorMissing)"
  proof (cases vs)
    case Nil then show ?thesis by (simp add: Append_def)
  next
    case (Cons w ws)
    show ?thesis
    proof (cases "array a = []")
      case True
      then show ?thesis using assms Cons
        by (cases ws) (simp_all add: Append_def binSearch_nil)
    next
      case False
      then show ?thesis using assms Cons Append_loop_nil_nonempty[of a vs]
        by (simp add: Append_def)
    qed
  qed
  have get: "Get a i = (if 0 \<le> i \<and> i < int (length (array a)) then Some (array a ! nat i) else None)"
    by (auto simp add: Get_def)
  have srch: "Search a v = (if array a = [] then Inr (- 1) else Inl ComparatorMissing)"
    using assms by (simp add: Search_def binSearch_nil)
  have rmv: "RemoveValue a v = (if array a = [] then Inr (False, a) else Inl ComparatorMissing)"
    using assms by (simp add: RemoveValue_def binSearch_nil)
  show ?thesis using assms app get srch rmv
    by (simp add: NewSortedArray_def NewSortedArraySize_def Len_def Add_def
        Unique_nil SetArray_nil)
qed

theorem nil_comparator_panics_at_first_comparison_witness:
  "comparator \<lparr>array = [3::int], unique = False, comparator = None\<rparr> = None
   \<and> Append \<lparr>array = [3::int], unique = False, comparator = None\<rparr> [5] = Inl ComparatorMissing
   \<and> Search \<lparr>array = [3::int], unique = False, comparator = None\<rparr> 3 = Inl ComparatorMissing
   \<and> RemoveValue \<lparr>array = [3::int], unique = False, comparator = None\<rparr> 3 = Inl ComparatorMissing
   \<and> Unique \<lparr>array = [3::int], unique = False, comparator = None\<rparr>
         = Inr \<lparr>array = [3::int], unique = False, comparator = None\<rparr>
   \<and> SetArray \<lparr>array = [3::int], unique = False, comparator = None\<rparr> [2, 1] = Inl ComparatorMissing"
  using nil_comparator_panics_at_first_comparison
          [of "\<lparr>array = [3::int], unique = False, comparator = None\<rparr>" 0 "[5]" 3 "[2, 1]"]
  by simp

text \<open>
  Claim C7 as stated fails: the first \<open>Append\<close> on a sorted array built with a nil
  comparator does not panic, it stores the value; \<open>Search\<close> and \<open>RemoveValue\<close> on the
  empty array return not-found.
\<close>

theorem nil_comparator_first_use_counterexample:
  "Append (NewSortedArray None) [1::int] = Inr \<lparr>array = [1], unique = False, comparator = None\<rparr>
   \<and> Search (NewSortedArray None) (1::int) = Inr (- 1)
   \<and> RemoveValue (NewSortedArray None) (1::int) = Inr (False, NewSortedArray None)"
  by (simp add: Append_def Search_def RemoveValue_def NewSortedArray_def NewSortedArraySize_def
      binSearch_def)

lemma lawful_trans: "lawful c \<Longrightarrow> c x y \<le> 0 \<Longrightarrow> c y z \<le> 0 \<Longrightarrow> c x z \<le> 0"
  unfolding lawful_def by blast

lemma lawful_flip: "lawful c \<Longrightarrow> (c x y < 0) = (c y x > 0)"
  unfolding lawful_def by blast

lemma lawful_less_le: "lawful c \<Longrightarrow> c x y < 0 \<Longrightarrow> c y z \<le> 0 \<Longrightarrow> c x z < 0"
  by (metis lawful_flip lawful_trans not_less)

lemma lawful_le_greater: "lawful c \<Longrightarrow> c x y \<le> 0 \<Longrightarrow> c v y > 0 \<Longrightarrow> c v x > 0"
  by (metis lawful_trans not_less)

lemma is_sorted_sorted_wrt:
  "lawful c \<Longrightarrow> is_sorted c xs = sorted_wrt (le_of c) xs"
proof (induction c xs rule: is_sorted.induct)
  case (1 c x y ys)
  then show ?case by (auto intro: lawful_trans)
qed simp_all

lemma binSearch_loop_post:
  assumes c: "comparator a = Some c" and law: "lawful c"
    and srt: "sorted_wrt (le_of c) (array a)"
  shows "0 \<le> mn \<Longrightarrow> mx < int (length (array a)) \<Longrightarrow>
     (\<forall>j. 0 \<le> j \<and> j < mn \<longrightarrow> c v (array a ! nat j) > 0) \<Longrightarrow>
     (\<forall>j. mx < j \<and> j < int (length (array a)) \<longrightarrow> c v (array a ! nat j) < 0) \<Longrightarrow>
     mn \<le> mx \<or> post a c v mid cmp \<Longrightarrow>
     \<exists>i r. binSearch_loop a v mn mx mid cmp = Inr (i, r) \<and> post a c v i r"
proof (induction "nat (mx - mn + 1)" arbitrary: mn mx mid cmp rule: less_induct)
  case less
  show ?case
  proof (cases "mn \<le> mx")
    case False
    then show ?thesis using less.prems by (subst binSearch_loop.simps) simp
  next
    case True
    define m where "m = mn + (mx - mn) div 2"
    define r where "r = c v (array a ! nat m)"
    have m_range: "mn \<le> m" "m \<le> mx" using True by (auto simp: m_def)
    then have m_in: "0 \<le> m" "m < int (length (array a))" using less.prems by auto
    have mono: "\<And>i j. 0 \<le> i \<Longrightarrow> i < j \<Longrightarrow> j < int (length (array a))
        \<Longrightarrow> c (array a ! nat i) (array a ! nat j) \<le> 0"
      using srt by (auto simp: sorted_wrt_iff_nth_less)
    consider (lt) "r < 0" | (gt) "r > 0" | (eq) "r = 0" by linarith
    then show ?thesis
    proof cases
      case eq
      have "binSearch_loop a v mn mx mid cmp = Inr (m, r)"
        using True m_in eq c
        by (subst binSearch_loop.simps) (simp add: getComparator_def Let_def m_def[symmetric] r_def[symmetric])
      moreover have "post a c v m r" using m_in eq by (simp add: post_def r_def)
      ultimately show ?thesis by blast
    next
      case lt
      have step: "binSearch_loop a v mn mx mid cmp = binSearch_loop a v mn (m - 1) m r"
        using True m_in lt c
        by (subst binSearch_loop.simps) (simp add: getComparator_def Let_def m_def[symmetric] r_def[symmetric])
      have above: "\<forall>j. m - 1 < j \<and> j < int (length (array a)) \<longrightarrow> c v (array a ! nat j) < 0"
      proof (intro allI impI)
        fix j assume j: "m - 1 < j \<and> j < int (length (array a))"
        show "c v (array a ! nat j) < 0"
        proof (cases "j = m")
          case True then show ?thesis using lt by (simp add: r_def)
        next
          case False
          then have "c (array a ! nat m) (array a ! nat j) \<le> 0" using mono[of m j] j m_in by simp
          then show ?thesis using lawful_less_le[OF law] lt by (auto simp: r_def)
        qed
      qed
      have fin: "mn \<le> m - 1 \<or> post a c v m r"
      proof (cases "mn \<le> m - 1")
        case False
        then have "mn = m" using m_range by simp
        then have "post a c v m r" using m_in lt less.prems(3) by (simp add: post_def r_def)
        then show ?thesis ..
      qed simp
      have "\<exists>i r'. binSearch_loop a v mn (m - 1) m r = Inr (i, r') \<and> post a c v i r'"
        using less.hyps[of "m - 1" mn m r] less.prems(1,3) above fin m_range m_in True
        by simp
      then show ?thesis using step by simp
    next
      case gt
      have step: "binSearch_loop a v mn mx mid cmp = binSearch_loop a v (m + 1) mx m r"
        using True m_in gt c
        by (subst binSearch_loop.simps) (simp add: getComparator_def Let_def m_def[symmetric] r_def[symmetric])
      have below: "\<forall>j. 0 \<le> j \<and> j < m + 1 \<longrightarrow> c v (array a ! nat j) > 0"
      proof (intro allI impI)
        fix j assume j: "0 \<le> j \<and> j < m + 1"
        show "c v (array a ! nat j) > 0"
        proof (cases "j = m")
          case True then show ?thesis using gt by (simp add: r_def)
        next
          case False
          then have "c (array a ! nat j) (array a ! nat m) \<le> 0" using mono[of j m] j m_in by simp
          then show ?thesis using lawful_le_greater[OF law] gt by (auto simp: r_def)
        qed
      qed
      have fin: "m + 1 \<le> mx \<or> post a c v m r"
      proof (cases "m + 1 \<le> mx")
        case False
        then have "mx = m" using m_range by simp
        then have "post a c v m r" using m_in gt less.prems(4) by (simp add: post_def r_def)
        then show ?thesis ..
      qed simp
      have "\<exists>i r'. binSearch_loop a v (m + 1) mx m r = Inr (i, r') \<and> post a c v i r'"
        using less.hyps[of mx "m + 1" m r] less.prems(2,4) below fin m_range m_in True
        by simp
      then show ?thesis using step by simp
    qed
  qed
qed

lemma binSearch_post:
  assumes "good c a" "lawful c" "array a \<noteq> []"
  shows "\<exists>i r. binSearch a v = Inr (i, r) \<and> post a c v i r"
  using assms binSearch_loop_post[of a c 0 "int (length (array a)) - 1" v 0 "- 2"]
  by (simp add: binSearch_def good_def)

lemma insert_sorted:
  assumes law: "lawful c" and srt: "sorted_wrt (le_of c) xs" and k: "k \<le> length xs"
    and lo: "\<forall>j < k. c (xs ! j) v \<le> 0" and hi: "\<forall>j. k \<le> j \<and> j < length xs \<longrightarrow> c v (xs ! j) \<le> 0"
  shows "sorted_wrt (le_of c) (take k xs @ v # drop k xs)"
proof -
  have "sorted_wrt (le_of c) (take k xs @ drop k xs)" using srt by simp
  then have parts: "sorted_wrt (le_of c) (take k xs)" "sorted_wrt (le_of c) (drop k xs)"
    "\<forall>x\<in>set (take k xs). \<forall>y\<in>set (drop k xs). c x y \<le> 0"
    unfolding sorted_wrt_append by auto
  have a: "\<forall>x\<in>set (take k xs). c x v \<le> 0"
    using lo k by (auto simp: in_set_conv_nth)
  have b: "\<forall>y\<in>set (drop k xs). c v y \<le> 0"
  proof
    fix y assume "y \<in> set (drop k xs)"
    then obtain i where "i < length xs - k" "y = xs ! (k + i)"
      by (auto simp: in_set_conv_nth)
    then show "c v y \<le> 0" using hi by simp
  qed
  show ?thesis using parts a b by (auto simp: sorted_wrt_append)
qed

lemma lawful_ge: "lawful c \<Longrightarrow> c v x > 0 \<Longrightarrow> c x v \<le> 0"
  using lawful_flip[of c x v] by simp

lemma lawful_eq_flip: "lawful c \<Longrightarrow> c v x = 0 \<Longrightarrow> c x v = 0"
  using lawful_flip[of c x v] lawful_flip[of c v x] by simp

lemma insert_at_post:
  assumes g: "good c a" and law: "lawful c" and p: "post a c v i r"
  shows "nat (if r > 0 then i + 1 else i) \<le> length (array a) \<and>
         sorted_wrt (le_of c) (take (nat (if r > 0 then i + 1 else i)) (array a) @ v #
                               drop (nat (if r > 0 then i + 1 else i)) (array a))"
proof -
  let ?xs = "array a"
  have srt: "sorted_wrt (le_of c) ?xs" using g by (simp add: good_def)
  have mono: "\<And>i j. i < j \<Longrightarrow> j < length ?xs \<Longrightarrow> c (?xs ! i) (?xs ! j) \<le> 0"
    using srt by (auto simp: sorted_wrt_iff_nth_less)
  have i: "0 \<le> i" "i < int (length ?xs)" and r: "r = c v (?xs ! nat i)"
    using p by (auto simp: post_def)
  define n where "n = nat i"
  have n: "n < length ?xs" "i = int n" using i by (auto simp: n_def)
  have rn: "r = c v (?xs ! n)" using r by (simp add: n_def)
  consider (lt) "r < 0" | (gt) "r > 0" | (eq) "r = 0" by linarith
  then show ?thesis
  proof cases
    case lt
    have lo: "\<forall>j < n. c (?xs ! j) v \<le> 0"
    proof (intro allI impI)
      fix j assume "j < n"
      then have "c v (?xs ! nat (int j)) > 0" using p lt n unfolding post_def by (metis of_nat_0_le_iff of_nat_less_iff)
      then show "c (?xs ! j) v \<le> 0" using lawful_ge[OF law] by simp
    qed
    have hi: "\<forall>j. n \<le> j \<and> j < length ?xs \<longrightarrow> c v (?xs ! j) \<le> 0"
    proof (intro allI impI)
      fix j assume j: "n \<le> j \<and> j < length ?xs"
      show "c v (?xs ! j) \<le> 0"
      proof (cases "j = n")
        case True then show ?thesis using lt rn by simp
      next
        case False
        then have "c (?xs ! n) (?xs ! j) \<le> 0" using mono[of n j] j by simp
        then show ?thesis using lawful_trans[OF law, of v "?xs ! n" "?xs ! j"] lt rn by simp
      qed
    qed
    show ?thesis using insert_sorted[OF law srt _ lo hi] lt n by simp
  next
    case eq
    have lo: "\<forall>j < n. c (?xs ! j) v \<le> 0"
    proof (intro allI impI)
      fix j assume "j < n"
      then have "c (?xs ! j) (?xs ! n) \<le> 0" using mono[of j n] n by simp
      moreover have "c (?xs ! n) v \<le> 0" using lawful_eq_flip[OF law] eq rn by simp
      ultimately show "c (?xs ! j) v \<le> 0" using lawful_trans[OF law] by blast
    qed
    have hi: "\<forall>j. n \<le> j \<and> j < length ?xs \<longrightarrow> c v (?xs ! j) \<le> 0"
    proof (intro allI impI)
      fix j assume j: "n \<le> j \<and> j < length ?xs"
      show "c v (?xs ! j) \<le> 0"
      proof (cases "j = n")
        case True then show ?thesis using eq rn by simp
      next
        case False
        then have "c (?xs ! n) (?xs ! j) \<le> 0" using mono[of n j] j by simp
        then show ?thesis using lawful_trans[OF law, of v "?xs ! n" "?xs ! j"] eq rn by simp
      qed
    qed
    show ?thesis using insert_sorted[OF law srt _ lo hi] eq n by simp
  next
    case gt
    have lo: "\<forall>j < Suc n. c (?xs ! j) v \<le> 0"
    proof (intro allI impI)
      fix j assume j: "j < Suc n"
      have nv: "c (?xs ! n) v \<le> 0" using lawful_ge[OF law] gt rn by simp
      show "c (?xs ! j) v \<le> 0"
      proof (cases "j = n")
        case True then show ?thesis using nv by simp
      next
        case False
        then have "c (?xs ! j) (?xs ! n) \<le> 0" using mono[of j n] j n by simp
        then show ?thesis using lawful_trans[OF law] nv by blast
      qed
    qed
    have hi: "\<forall>j. Suc n \<le> j \<and> j < length ?xs \<longrightarrow> c v (?xs ! j) \<le> 0"
    proof (intro allI impI)
      fix j assume j: "Suc n \<le> j \<and> j < length ?xs"
      then have "c v (?xs ! nat (int j)) < 0" using p gt n unfolding post_def
        by (metis Suc_le_lessD of_nat_less_iff)
      then show "c v (?xs ! j) \<le> 0" by simp
    qed
    have "nat (i + 1) = Suc n" using n by simp
    then show ?thesis using insert_sorted[OF law srt _ lo hi] gt n by simp
  qed
qed

lemma Append_loop_good:
  assumes law: "lawful c"
  shows "good c a \<Longrightarrow> \<exists>a'. Append_loop a vs = Inr a' \<and> good c a'"
proof (induction vs arbitrary: a)
  case Nil
  then show ?case by simp
next
  case (Cons v vs)
  show ?case
  proof (cases "array a = []")
    case True
    have g': "good c (a\<lparr>array := [v]\<rparr>)" using Cons.prems by (simp add: good_def)
    show ?thesis using True Cons.IH[OF g'] Cons.IH[OF Cons.prems]
      by (simp add: binSearch_def)
  next
    case False
    obtain i r where b: "binSearch a v = Inr (i, r)" and p: "post a c v i r"
      using binSearch_post[OF Cons.prems law False] by blast
    have i0: "\<not> i < 0" using p by (simp add: post_def)
    let ?k = "nat (if r > 0 then i + 1 else i)"
    have ins: "?k \<le> length (array a)"
      "sorted_wrt (le_of c) (take ?k (array a) @ v # drop ?k (array a))"
      using insert_at_post[OF Cons.prems law p] by auto
    have g': "good c (a\<lparr>array := take ?k (array a) @ v # drop ?k (array a)\<rparr>)"
      using ins Cons.prems by (simp add: good_def)
    have le: "\<not> (if r > 0 then i + 1 else i) > int (length (array a))"
      using ins(1) p by (auto simp: post_def)
    show ?thesis
    proof (cases "unique a \<and> r = 0")
      case True
      then show ?thesis using b Cons.IH[OF Cons.prems] by simp
    next
      case False
      then show ?thesis using b i0 le Cons.IH[OF g'] by (auto simp: Let_def)
    qed
  qed
qed

lemma Append_good:
  "lawful c \<Longrightarrow> good c a \<Longrightarrow> \<exists>a'. Append a vs = Inr a' \<and> good c a'"
  using Append_loop_good[of c a vs] by (simp add: Append_def)

lemma sorted_wrt_remove:
  assumes s: "sorted_wrt P xs" and ij: "i \<le> j"
  shows "sorted_wrt P (take i xs @ drop j xs)"
proof -
  have "sorted_wrt P (take i xs @ drop i xs)" using s by simp
  then have a: "sorted_wrt P (take i xs)" "\<forall>x\<in>set (take i xs). \<forall>y\<in>set (drop i xs). P x y"
    unfolding sorted_wrt_append by blast+
  have b: "sorted_wrt P (drop j xs)" using s by (rule sorted_wrt_drop)
  have "set (drop j xs) \<subseteq> set (drop i xs)" using ij by (rule set_drop_subset_set_drop)
  then show ?thesis using a b unfolding sorted_wrt_append by blast
qed

lemma doRemove_good:
  "good c a \<Longrightarrow> good c (snd (doRemoveWithoutLock a i))"
  using sorted_wrt_remove[of "le_of c" "array a" "nat i" "nat i + 1"]
  by (auto simp: doRemoveWithoutLock_def good_def sorted_wrt_drop sorted_wrt_take)

lemma RemoveValue_good:
  assumes "lawful c" "good c a"
  shows "\<exists>r a'. RemoveValue a v = Inr (r, a') \<and> good c a'"
proof (cases "array a = []")
  case True
  then show ?thesis using assms by (auto simp: RemoveValue_def binSearch_def)
next
  case False
  obtain i r where b: "binSearch a v = Inr (i, r)"
    using binSearch_post[OF assms(2,1) False] by blast
  show ?thesis using b doRemove_good[OF assms(2), of i] assms(2)
    by (cases "doRemoveWithoutLock a i") (auto simp: RemoveValue_def)
qed

lemma RemoveValues_good:
  assumes law: "lawful c"
  shows "good c a \<Longrightarrow> \<exists>a'. RemoveValues a vs = Inr a' \<and> good c a'"
proof (induction vs arbitrary: a)
  case Nil then show ?case by simp
next
  case (Cons v vs)
  show ?case
  proof (cases "array a = []")
    case True
    then show ?thesis using Cons.IH[OF Cons.prems] by (simp add: binSearch_def)
  next
    case False
    obtain i r where b: "binSearch a v = Inr (i, r)"
      using binSearch_post[OF Cons.prems law False] by blast
    show ?thesis using b Cons.IH[OF Cons.prems] Cons.IH[OF doRemove_good[OF Cons.prems, of i]]
      by auto
  qed
qed

lemma PopRands_loop_good:
  "good c a \<Longrightarrow> good c (snd (PopRands_loop intn a i n))"
proof (induction n arbitrary: a i)
  case 0 then show ?case by simp
next
  case (Suc n)
  show ?case using Suc.IH[OF doRemove_good[OF Suc.prems, of "intn i (int (length (array a)))"], of "Suc i"]
    by (auto split: prod.splits)
qed

lemma apply_op_good:
  assumes "lawful c" "good c a"
  shows "\<exists>a'. apply_op intn a x = Inr a' \<and> good c a'"
proof (cases x)
  case (OpAppend vs) then show ?thesis using Append_good[OF assms] by simp
next
  case (OpAdd vs) then show ?thesis using Append_good[OF assms] by (simp add: Add_def)
next
  case (OpRemove i) then show ?thesis using doRemove_good[OF assms(2)] by (simp add: Remove_def)
next
  case (OpRemoveValue v) then show ?thesis using RemoveValue_good[OF assms, of v] by auto
next
  case (OpRemoveValues vs) then show ?thesis using RemoveValues_good[OF assms] by simp
next
  case OpPopLeft then show ?thesis using assms(2) by (auto simp: PopLeft_def good_def sorted_wrt_drop)
next
  case OpPopRight then show ?thesis using assms(2) by (auto simp: PopRight_def good_def Let_def sorted_wrt_take)
next
  case (OpPopRands n) then show ?thesis using assms(2) PopRands_loop_good[OF assms(2)] by (simp add: PopRands_def)
next
  case (OpMerge vs) then show ?thesis using Append_good[OF assms] by (simp add: Merge_def Add_def)
qed

lemma apply_ops_good:
  assumes law: "lawful c"
  shows "good c a \<Longrightarrow> \<exists>a'. apply_ops intn a xs = Inr a' \<and> good c a'"
proof (induction xs arbitrary: a)
  case Nil then show ?case by simp
next
  case (Cons x xs)
  obtain a1 where "apply_op intn a x = Inr a1" "good c a1"
    using apply_op_good[OF law Cons.prems] by blast
  then show ?case using Cons.IH[of a1] by simp
qed

text \<open>
  Claim C10. Under a lawful comparator \<open>c\<close>, every run of \<open>Add\<close>/\<open>Append\<close>, \<open>Remove\<close>,
  \<open>RemoveValue\<close>, \<open>RemoveValues\<close>, \<open>PopLeft\<close>, \<open>PopRight\<close>, \<open>PopRands\<close> and \<open>Merge\<close> on a
  sorted array returns without a panic and leaves the array sorted under \<open>c\<close>, with the
  comparator unchanged.
\<close>

theorem sorted_array_stays_sorted:
  assumes "lawful c" "comparator a = Some c" "is_sorted c (array a)"
  shows "\<exists>a'. apply_ops intn a ops = Inr a' \<and> comparator a' = Some c \<and> is_sorted c (array a')"
  using apply_ops_good[OF assms(1), of a intn ops] assms
  by (simp add: good_def is_sorted_sorted_wrt)

lemma lawful_compare_int: "lawful compare_int"
  by (auto simp: lawful_def compare_int_def)

theorem sorted_array_stays_sorted_witness:
  "lawful compare_int \<and> comparator (NewSortedArray (Some compare_int)) = Some compare_int
   \<and> is_sorted compare_int (array (NewSortedArray (Some compare_int)))
   \<and> (\<exists>a'. apply_ops (\<lambda>k n. 0) (NewSortedArray (Some compare_int))
          [OpAppend [3, 1, 2], OpRemoveValue 2, OpPopRands 1, OpMerge [0, 5]] = Inr a'
        \<and> comparator a' = Some compare_int \<and> is_sorted compare_int (array a'))"
  using sorted_array_stays_sorted[of compare_int "NewSortedArray (Some compare_int)" "\<lambda>k n. 0"
      "[OpAppend [3, 1, 2], OpRemoveValue 2, OpPopRands 1, OpMerge [0, 5]]"] lawful_compare_int
  by (simp add: NewSortedArray_def NewSortedArraySize_def)

section \<open>Properties of the list\<close>

lemma set_simps [simp]:
  "elem (set_next r p h) = (elem h)(r := (elem h r)\<lparr>e_next := p\<rparr>)"
  "elem (set_prev r p h) = (elem h)(r := (elem h r)\<lparr>e_prev := p\<rparr>)"
  "elem (set_list r q h) = (elem h)(r := (elem h r)\<lparr>e_list := q\<rparr>)"
  "elem (set_len l n h) = elem h"
  "len (set_next r p h) = len h" "len (set_prev r p h) = len h" "len (set_list r q h) = len h"
  "len (set_len l n h) = (len h)(l := n)"
  "next_elem (set_next r p h) = next_elem h" "next_elem (set_prev r p h) = next_elem h"
  "next_elem (set_list r q h) = next_elem h" "next_elem (set_len l n h) = next_elem h"
  "mu_safe (set_next r p h) = mu_safe h" "mu_safe (set_prev r p h) = mu_safe h"
  "mu_safe (set_list r q h) = mu_safe h" "mu_safe (set_len l n h) = mu_safe h"
  "next_list (set_next r p h) = next_list h" "next_list (set_prev r p h) = next_list h"
  "next_list (set_list r q h) = next_list h" "next_list (set_len l n h) = next_list h"
  by (simp_all add: set_next_def set_prev_def set_list_def set_len_def)

lemma chain_append:
  "chain h a (xs @ y # ys) b = (chain h a xs y \<and> chain h y ys b)"
  by (induction xs arbitrary: a) auto

lemma chain_cong:
  "chain h a xs b \<Longrightarrow>
   (\<forall>r \<in> set (a # xs). e_next (elem h' r) = e_next (elem h r)) \<Longrightarrow>
   (\<forall>r \<in> set (xs @ [b]). e_prev (elem h' r) = e_prev (elem h r)) \<Longrightarrow>
   chain h' a xs b"
  by (induction xs arbitrary: a) auto

lemma chain_next_nth:
  "chain h a xs b \<Longrightarrow> i < length xs \<Longrightarrow> e_next (elem h (xs ! i)) = Some ((xs @ [b]) ! Suc i)"
proof (induction xs arbitrary: a i)
  case Nil then show ?case by simp
next
  case (Cons x xs)
  show ?case
  proof (cases i)
    case 0
    then show ?thesis using Cons.prems by (cases xs) auto
  next
    case (Suc j)
    then show ?thesis using Cons.prems Cons.IH[of x j] by simp
  qed
qed

lemma chain_prev_nth:
  "chain h a xs b \<Longrightarrow> i < length xs \<Longrightarrow> e_prev (elem h (xs ! i)) = Some ((a # xs) ! i)"
proof (induction xs arbitrary: a i)
  case Nil then show ?case by simp
next
  case (Cons x xs)
  show ?case
  proof (cases i)
    case 0
    then show ?thesis using Cons.prems by auto
  next
    case (Suc j)
    then show ?thesis using Cons.prems Cons.IH[of x j] by simp
  qed
qed

lemma chain_first: "chain h a xs b \<Longrightarrow> e_next (elem h a) = Some ((xs @ [b]) ! 0)"
  by (cases xs) auto

lemma chain_last: "chain h a xs b \<Longrightarrow> e_prev (elem h b) = Some (last (a # xs))"
  by (induction xs arbitrary: a) auto

lemma chain_unique:
  "length xs = length ys \<Longrightarrow> chain h a xs b \<Longrightarrow> chain h a ys b \<Longrightarrow> xs = ys"
  by (induction xs ys arbitrary: a rule: list_induct2) auto

lemma ring_unique: "ring h l xs \<Longrightarrow> ring h l ys \<Longrightarrow> xs = ys"
proof -
  assume a: "ring h l xs" "ring h l ys"
  then have "length (map Node xs) = length (map Node ys)" by (simp add: ring_def)
  then have "map Node xs = map Node ys" using a chain_unique unfolding ring_def by blast
  then show ?thesis by (simp add: inj_on_def list.inj_map_strong)
qed

lemma insertValue_spec:
  assumes an: "e_next (elem h a) = Some b" and fresh: "a \<noteq> Node (next_elem h)" "b \<noteq> Node (next_elem h)"
  shows "\<exists>h'. insertValue l v (Some a) h = Some (Some (Node (next_elem h)), h') \<and>
     elem h' (Node (next_elem h)) = \<lparr>e_next = Some b, e_prev = Some a, e_list = Some l, Value = v\<rparr> \<and>
     e_next (elem h' a) = Some (Node (next_elem h)) \<and>
     e_prev (elem h' b) = Some (Node (next_elem h)) \<and>
     (\<forall>r. r \<noteq> a \<and> r \<noteq> Node (next_elem h) \<longrightarrow> e_next (elem h' r) = e_next (elem h r)) \<and>
     (\<forall>r. r \<noteq> b \<and> r \<noteq> Node (next_elem h) \<longrightarrow> e_prev (elem h' r) = e_prev (elem h r)) \<and>
     (\<forall>r. r \<noteq> Node (next_elem h) \<longrightarrow>
         e_list (elem h' r) = e_list (elem h r) \<and> Value (elem h' r) = Value (elem h r)) \<and>
     len h' = (len h)(l := len h l + 1) \<and> next_elem h' = Suc (next_elem h) \<and>
     next_list h' = next_list h"
  using assms by (auto simp: insertValue_def insertE_def Let_def)

lemma frame_refl: "frame l h h"
  by (simp add: frame_def)

lemma frame_ring:
  assumes f: "frame l h h'" and ol: "q \<noteq> l" and r: "ring h q xs"
  shows "ring h' q xs"
proof -
  have same: "\<forall>r \<in> set (Root q # map Node xs). elem h' r = elem h r"
    using f ol r by (auto simp: frame_def ring_def)
  have c: "chain h (Root q) (map Node xs) (Root q)" using r by (simp add: ring_def)
  have "chain h' (Root q) (map Node xs) (Root q)"
    by (rule chain_cong[OF c]) (use same in auto)
  moreover have "\<forall>n \<in> set xs. e_list (elem h' (Node n)) = Some q \<and> n < next_elem h'"
    using same r f by (auto simp: ring_def frame_def)
  moreover have "len h' q = len h q" using f ol by (simp add: frame_def)
  ultimately show ?thesis using r by (simp add: ring_def)
qed

lemma frame_is_list:
  assumes f: "frame l h h'" and ol: "q \<noteq> l" and r: "is_list h q xs"
  shows "is_list h' q xs"
proof -
  have "elem h' (Root q) = elem h (Root q)" "len h' q = len h q"
    using f ol by (auto simp: frame_def)
  then show ?thesis using r frame_ring[OF f ol] by (auto simp: is_list_def)
qed

lemma frame_values:
  "frame l h h' \<Longrightarrow> \<forall>n \<in> set ns. n < next_elem h \<Longrightarrow> values_of h' ns = values_of h ns"
  by (simp add: frame_def values_of_def)

lemma ring_bound: "ring h l ns \<Longrightarrow> \<forall>n \<in> set ns. n < next_elem h"
  by (simp add: ring_def)

lemma ring_not_nil: "ring h l ns \<Longrightarrow> e_next (elem h (Root l)) \<noteq> None"
  by (cases ns) (auto simp: ring_def)

lemma ring_is_list: "ring h l ns \<Longrightarrow> is_list h l ns"
  using ring_not_nil[of h l ns] by (auto simp: is_list_def)

lemma lazyInit_ring: "is_list h l ns \<Longrightarrow> ring (lazyInit l h) l ns"
  by (auto simp: is_list_def lazyInit_def Init_def ring_def)

lemma lazyInit_frame: "frame l h (lazyInit l h)"
  by (auto simp: frame_def lazyInit_def Init_def)

lemma lazyInit_values: "values_of (lazyInit l h) ns = values_of h ns"
  by (auto simp: values_of_def lazyInit_def Init_def)

lemma lazyInit_id: "ring h l ns \<Longrightarrow> lazyInit l h = h"
  using ring_not_nil[of h l ns] by (auto simp: lazyInit_def)

lemma ring_back: "ring h l ns \<Longrightarrow> e_prev (elem h (Root l)) = Some (last (Root l # map Node ns))"
  unfolding ring_def using chain_last by blast

lemma push_back_ring:
  assumes r: "ring h l ns"
  shows "\<exists>h'. insertValue l v (e_prev (elem h (Root l))) h = Some (Some (Node (next_elem h)), h') \<and>
      ring h' l (ns @ [next_elem h]) \<and> frame l h h' \<and> Value (elem h' (Node (next_elem h))) = v \<and>
      next_elem h' = Suc (next_elem h) \<and> next_list h' = next_list h"
proof -
  let ?k = "next_elem h"
  let ?a = "last (Root l # map Node ns)"
  have c: "chain h (Root l) (map Node ns) (Root l)" and d: "distinct ns"
    and b: "\<forall>n \<in> set ns. e_list (elem h (Node n)) = Some l \<and> n < ?k"
    and ln: "len h l = int (length ns)"
    using r by (auto simp: ring_def)
  have a_cases: "(ns = [] \<and> ?a = Root l) \<or> (\<exists>ms m. ns = ms @ [m] \<and> ?a = Node m)"
    by (cases ns rule: rev_cases) auto
  have an: "e_next (elem h ?a) = Some (Root l)"
    using a_cases c by (auto simp: chain_append)
  have fresh: "?a \<noteq> Node ?k" "Root l \<noteq> Node ?k" using a_cases b by auto
  obtain h' where ins: "insertValue l v (Some ?a) h = Some (Some (Node ?k), h')"
    and new: "elem h' (Node ?k) = \<lparr>e_next = Some (Root l), e_prev = Some ?a, e_list = Some l, Value = v\<rparr>"
    and anew: "e_next (elem h' ?a) = Some (Node ?k)"
    and bnew: "e_prev (elem h' (Root l)) = Some (Node ?k)"
    and nx: "\<forall>r. r \<noteq> ?a \<and> r \<noteq> Node ?k \<longrightarrow> e_next (elem h' r) = e_next (elem h r)"
    and pv: "\<forall>r. r \<noteq> Root l \<and> r \<noteq> Node ?k \<longrightarrow> e_prev (elem h' r) = e_prev (elem h r)"
    and oth: "\<forall>r. r \<noteq> Node ?k \<longrightarrow>
         e_list (elem h' r) = e_list (elem h r) \<and> Value (elem h' r) = Value (elem h r)"
    and ln': "len h' = (len h)(l := len h l + 1)" and ne: "next_elem h' = Suc ?k"
    and nl: "next_list h' = next_list h"
    using insertValue_spec[OF an fresh, of l v] by blast
  have knew: "?k \<notin> set ns" using b by auto
  have nx': "\<And>r. r \<noteq> ?a \<Longrightarrow> r \<noteq> Node ?k \<Longrightarrow> e_next (elem h' r) = e_next (elem h r)"
    using nx by blast
  have pv': "\<And>r. r \<noteq> Root l \<Longrightarrow> r \<noteq> Node ?k \<Longrightarrow> e_prev (elem h' r) = e_prev (elem h r)"
    using pv by blast
  have ch: "chain h' (Root l) (map Node (ns @ [?k])) (Root l)"
  proof (cases ns rule: rev_cases)
    case Nil
    then show ?thesis using new anew bnew by simp
  next
    case (snoc ms m)
    then have c1: "chain h (Root l) (map Node ms) (Node m)" using c by (simp add: chain_append)
    have m: "m \<notin> set ms" "m \<noteq> ?k" using d snoc knew by auto
    have a_eq: "?a = Node m" using snoc by simp
    have nk: "\<And>r. r \<in> set ms \<Longrightarrow> r \<noteq> ?k \<and> r \<noteq> m" using m knew snoc by auto
    have "chain h' (Root l) (map Node ms) (Node m)"
    proof (rule chain_cong[OF c1])
      have "e_next (elem h' (Root l)) = e_next (elem h (Root l))"
        using nx[rule_format, of "Root l"] a_eq by simp
      moreover have "\<And>r. r \<in> set ms \<Longrightarrow> e_next (elem h' (Node r)) = e_next (elem h (Node r))"
        using nx[rule_format] a_eq nk by simp
      ultimately show "\<forall>r\<in>set (Root l # map Node ms). e_next (elem h' r) = e_next (elem h r)"
        by auto
      have "e_prev (elem h' (Node m)) = e_prev (elem h (Node m))"
        using pv[rule_format, of "Node m"] m by simp
      moreover have "\<And>r. r \<in> set ms \<Longrightarrow> e_prev (elem h' (Node r)) = e_prev (elem h (Node r))"
        using pv[rule_format] nk by simp
      ultimately show "\<forall>r\<in>set (map Node ms @ [Node m]). e_prev (elem h' r) = e_prev (elem h r)"
        by auto
    qed
    then show ?thesis using snoc new anew bnew by (simp add: chain_append)
  qed
  have r': "ring h' l (ns @ [?k])"
    using ch d knew ln ln' b oth new ne by (auto simp: ring_def)
  have el: "\<forall>r. r \<noteq> ?a \<and> r \<noteq> Root l \<and> r \<noteq> Node ?k \<longrightarrow> elem h' r = elem h r"
    using nx pv oth by (simp add: Element.equality)
  have al: "?a = Root l \<or> (\<exists>m. ?a = Node m \<and> e_list (elem h ?a) = Some l)"
    using a_cases b by auto
  have fr: "frame l h h'"
    unfolding frame_def
  proof (intro conjI allI impI)
    show "next_elem h \<le> next_elem h'" using ne by simp
  next
    fix q assume "q \<noteq> l"
    then have "Root q \<noteq> ?a" using al by auto
    then show "elem h' (Root q) = elem h (Root q)" using el \<open>q \<noteq> l\<close> by simp
  next
    fix q assume "q \<noteq> l"
    then show "len h' q = len h q" using ln' by simp
  next
    fix n assume A: "n < next_elem h \<and> e_list (elem h (Node n)) \<noteq> Some l"
    then have "Node n \<noteq> ?a" using al by auto
    then show "elem h' (Node n) = elem h (Node n)" using el A by simp
  next
    fix n assume "n < next_elem h"
    then show "Value (elem h' (Node n)) = Value (elem h (Node n))" using oth by auto
  next
    show "e_list (elem h' (Root l)) = e_list (elem h (Root l))" using oth by auto
  next
    show "Value (elem h' (Root l)) = Value (elem h (Root l))" using oth by auto
  qed
  have "e_prev (elem h (Root l)) = Some ?a" using ring_back[OF r] .
  then show ?thesis using ins r' fr new ne nl by simp
qed

lemma push_front_ring:
  assumes r: "ring h l ns"
  shows "\<exists>h'. insertValue l v (Some (Root l)) h = Some (Some (Node (next_elem h)), h') \<and>
      ring h' l (next_elem h # ns) \<and> frame l h h' \<and> Value (elem h' (Node (next_elem h))) = v \<and>
      next_elem h' = Suc (next_elem h) \<and> next_list h' = next_list h"
proof -
  let ?k = "next_elem h"
  let ?b = "(map Node ns @ [Root l]) ! 0"
  have c: "chain h (Root l) (map Node ns) (Root l)" and d: "distinct ns"
    and b: "\<forall>n \<in> set ns. e_list (elem h (Node n)) = Some l \<and> n < ?k"
    and ln: "len h l = int (length ns)"
    using r by (auto simp: ring_def)
  have b_cases: "(ns = [] \<and> ?b = Root l) \<or> (\<exists>m ms. ns = m # ms \<and> ?b = Node m)"
    by (cases ns) auto
  have an: "e_next (elem h (Root l)) = Some ?b"
    using chain_first[OF c] .
  have fresh: "Root l \<noteq> Node ?k" "?b \<noteq> Node ?k" using b_cases b by auto
  obtain h' where ins: "insertValue l v (Some (Root l)) h = Some (Some (Node ?k), h')"
    and new: "elem h' (Node ?k) = \<lparr>e_next = Some ?b, e_prev = Some (Root l), e_list = Some l, Value = v\<rparr>"
    and anew: "e_next (elem h' (Root l)) = Some (Node ?k)"
    and bnew: "e_prev (elem h' ?b) = Some (Node ?k)"
    and nx: "\<forall>r. r \<noteq> Root l \<and> r \<noteq> Node ?k \<longrightarrow> e_next (elem h' r) = e_next (elem h r)"
    and pv: "\<forall>r. r \<noteq> ?b \<and> r \<noteq> Node ?k \<longrightarrow> e_prev (elem h' r) = e_prev (elem h r)"
    and oth: "\<forall>r. r \<noteq> Node ?k \<longrightarrow>
         e_list (elem h' r) = e_list (elem h r) \<and> Value (elem h' r) = Value (elem h r)"
    and ln': "len h' = (len h)(l := len h l + 1)" and ne: "next_elem h' = Suc ?k"
    and nl: "next_list h' = next_list h"
    using insertValue_spec[OF an fresh, of l v] by blast
  have knew: "?k \<notin> set ns" using b by auto
  have nx': "\<And>r. r \<noteq> Root l \<Longrightarrow> r \<noteq> Node ?k \<Longrightarrow> e_next (elem h' r) = e_next (elem h r)"
    using nx by blast
  have pv': "\<And>r. r \<noteq> ?b \<Longrightarrow> r \<noteq> Node ?k \<Longrightarrow> e_prev (elem h' r) = e_prev (elem h r)"
    using pv by blast
  have ch: "chain h' (Root l) (map Node (?k # ns)) (Root l)"
  proof (cases ns)
    case Nil
    then show ?thesis using new anew bnew by simp
  next
    case (Cons m ms)
    then have c1: "chain h (Node m) (map Node ms) (Root l)" using c by simp
    have m: "m \<notin> set ms" "m \<noteq> ?k" using d Cons knew by auto
    have b_eq: "?b = Node m" using Cons by simp
    have nk: "\<And>r. r \<in> set ms \<Longrightarrow> r \<noteq> ?k \<and> r \<noteq> m" using m knew Cons by auto
    have "chain h' (Node m) (map Node ms) (Root l)"
    proof (rule chain_cong[OF c1])
      have "e_next (elem h' (Node m)) = e_next (elem h (Node m))"
        using nx[rule_format, of "Node m"] m by simp
      moreover have "\<And>r. r \<in> set ms \<Longrightarrow> e_next (elem h' (Node r)) = e_next (elem h (Node r))"
        using nx[rule_format] nk by simp
      ultimately show "\<forall>r\<in>set (Node m # map Node ms). e_next (elem h' r) = e_next (elem h r)"
        by auto
      have "e_prev (elem h' (Root l)) = e_prev (elem h (Root l))"
        using pv[rule_format, of "Root l"] b_eq by simp
      moreover have "\<And>r. r \<in> set ms \<Longrightarrow> e_prev (elem h' (Node r)) = e_prev (elem h (Node r))"
        using pv[rule_format] b_eq nk by simp
      ultimately show "\<forall>r\<in>set (map Node ms @ [Root l]). e_prev (elem h' r) = e_prev (elem h r)"
        by auto
    qed
    then show ?thesis using Cons new anew bnew by simp
  qed
  have r': "ring h' l (?k # ns)"
    using ch d knew ln ln' b oth new ne by (auto simp: ring_def)
  have el: "\<forall>r. r \<noteq> ?b \<and> r \<noteq> Root l \<and> r \<noteq> Node ?k \<longrightarrow> elem h' r = elem h r"
    using nx pv oth by (simp add: Element.equality)
  have al: "?b = Root l \<or> (\<exists>m. ?b = Node m \<and> e_list (elem h ?b) = Some l)"
    using b_cases b by auto
  have fr: "frame l h h'"
    unfolding frame_def
  proof (intro conjI allI impI)
    show "next_elem h \<le> next_elem h'" using ne by simp
  next
    fix q assume "q \<noteq> l"
    then have "Root q \<noteq> ?b" using al by auto
    then show "elem h' (Root q) = elem h (Root q)" using el \<open>q \<noteq> l\<close> by simp
  next
    fix q assume "q \<noteq> l"
    then show "len h' q = len h q" using ln' by simp
  next
    fix n assume A: "n < next_elem h \<and> e_list (elem h (Node n)) \<noteq> Some l"
    then have "Node n \<noteq> ?b" using al by auto
    then show "elem h' (Node n) = elem h (Node n)" using el A by simp
  next
    fix n assume "n < next_elem h"
    then show "Value (elem h' (Node n)) = Value (elem h (Node n))" using oth by auto
  next
    show "e_list (elem h' (Root l)) = e_list (elem h (Root l))" using oth by auto
  next
    show "Value (elem h' (Root l)) = Value (elem h (Root l))" using oth by auto
  qed
  show ?thesis using ins r' fr new ne nl by simp
qed

lemma ring_Next:
  assumes r: "ring h l ns" and i: "i < length ns"
  shows "Next (Some (Node (ns ! i))) h =
           Some (if Suc i < length ns then Some (Node (ns ! Suc i)) else None)"
proof -
  have c: "chain h (Root l) (map Node ns) (Root l)" using r by (simp add: ring_def)
  have nx: "e_next (elem h (Node (ns ! i))) = Some ((map Node ns @ [Root l]) ! Suc i)"
    using chain_next_nth[OF c, of i] i by simp
  have li: "e_list (elem h (Node (ns ! i))) = Some l" using r i by (simp add: ring_def)
  show ?thesis
  proof (cases "Suc i < length ns")
    case True
    then have "(map Node ns @ [Root l]) ! Suc i = Node (ns ! Suc i)" by (simp add: nth_append)
    then show ?thesis using nx li True by (simp add: Next_def)
  next
    case False
    then have "Suc i = length ns" using i by simp
    then have "(map Node ns @ [Root l]) ! Suc i = Root l"
      by (metis length_map nth_append_length)
    then show ?thesis using nx li False by (simp add: Next_def)
  qed
qed

lemma ring_Prev:
  assumes r: "ring h l ns" and i: "i < length ns"
  shows "Prev (Some (Node (ns ! i))) h =
           Some (if 0 < i then Some (Node (ns ! (i - 1))) else None)"
proof -
  have c: "chain h (Root l) (map Node ns) (Root l)" using r by (simp add: ring_def)
  have pv: "e_prev (elem h (Node (ns ! i))) = Some ((Root l # map Node ns) ! i)"
    using chain_prev_nth[OF c, of i] i by simp
  have li: "e_list (elem h (Node (ns ! i))) = Some l" using r i by (simp add: ring_def)
  show ?thesis
  proof (cases i)
    case 0
    then show ?thesis using pv li by (simp add: Prev_def)
  next
    case (Suc j)
    then show ?thesis using pv li i by (simp add: Prev_def)
  qed
qed

lemma ring_front: "ring h l ns \<Longrightarrow> ns \<noteq> [] \<Longrightarrow> e_next (elem h (Root l)) = Some (Node (ns ! 0))"
  by (cases ns) (auto simp: ring_def)

lemma ring_back_node: "ring h l ns \<Longrightarrow> ns \<noteq> [] \<Longrightarrow> e_prev (elem h (Root l)) = Some (Node (last ns))"
  using ring_back[of h l ns] by (simp add: last_map)

lemma values_of_append [simp]: "values_of h (xs @ ys) = values_of h xs @ values_of h ys"
  by (simp add: values_of_def)

lemma values_of_length [simp]: "length (values_of h ns) = length ns"
  by (simp add: values_of_def)

lemma values_of_nth: "i < length ns \<Longrightarrow> values_of h ns ! i = Value (elem h (Node (ns ! i)))"
  by (simp add: values_of_def)

lemma PushBackList_loop_spec:
  "ring h l cur \<Longrightarrow> ring h other (src @ extra) \<Longrightarrow> k \<le> length src \<Longrightarrow>
   (k < length src \<longrightarrow> e = Some (Node (src ! k))) \<Longrightarrow>
   \<exists>h' news. PushBackList_loop l (int (length src) - int k) e h = Some h' \<and>
      ring h' l (cur @ news) \<and>
      values_of h' (cur @ news) = values_of h cur @ drop k (values_of h src) \<and>
      (other \<noteq> l \<longrightarrow> ring h' other (src @ extra) \<and>
                     values_of h' (src @ extra) = values_of h (src @ extra))"
proof (induction "length src - k" arbitrary: k e h cur extra)
  case 0
  then have "k = length src" by simp
  then have "PushBackList_loop l (int (length src) - int k) e h = Some h"
    by (subst PushBackList_loop.simps) simp
  then show ?case using 0 \<open>k = length src\<close> by (intro exI[of _ h] exI[of _ "[]"]) simp
next
  case (Suc n)
  then have k: "k < length src" and e: "e = Some (Node (src ! k))" by auto
  let ?v = "Value (elem h (Node (src ! k)))"
  let ?new = "next_elem h"
  obtain h1 where ins: "insertValue l ?v (e_prev (elem h (Root l))) h = Some (Some (Node ?new), h1)"
    and r1: "ring h1 l (cur @ [?new])" and fr: "frame l h h1"
    and vnew: "Value (elem h1 (Node ?new)) = ?v"
    using push_back_ring[OF Suc.prems(1), of ?v] by blast
  obtain extra' where ro: "ring h1 other (src @ extra')"
    and ex: "other \<noteq> l \<longrightarrow> extra' = extra"
  proof (cases "other = l")
    case True
    then have "cur = src @ extra" using ring_unique Suc.prems(1,2) by blast
    then have "ring h1 other (src @ (extra @ [?new]))" using r1 True by simp
    then show ?thesis using that True by blast
  next
    case False
    then show ?thesis using that frame_ring[OF fr False Suc.prems(2)] by blast
  qed
  have nth: "(src @ extra') ! k = src ! k" using k by (simp add: nth_append)
  obtain e' where nx: "Next e h1 = Some e'"
    and e': "Suc k < length src \<longrightarrow> e' = Some (Node (src ! Suc k))"
    using ring_Next[OF ro, of k] k nth e by (auto simp: nth_append)
  have n: "n = length src - Suc k" using Suc.hyps(2) by simp
  obtain h' news where lp: "PushBackList_loop l (int (length src) - int (Suc k)) e' h1 = Some h'"
    and r': "ring h' l ((cur @ [?new]) @ news)"
    and vs: "values_of h' ((cur @ [?new]) @ news) =
             values_of h1 (cur @ [?new]) @ drop (Suc k) (values_of h1 src)"
    and oth: "other \<noteq> l \<longrightarrow> ring h' other (src @ extra') \<and>
                     values_of h' (src @ extra') = values_of h1 (src @ extra')"
    using Suc.hyps(1)[OF n r1 ro _ e'] k by auto
  have step: "PushBackList_loop l (int (length src) - int k) e h = Some h'"
    using k e ins nx lp
    by (subst PushBackList_loop.simps) (simp add: algebra_simps)
  have b1: "\<forall>n \<in> set cur. n < next_elem h" using ring_bound[OF Suc.prems(1)] .
  have b2: "\<forall>n \<in> set (src @ extra). n < next_elem h" using ring_bound[OF Suc.prems(2)] .
  have v1: "values_of h1 cur = values_of h cur" using frame_values[OF fr b1] .
  have v2: "values_of h1 (src @ extra) = values_of h (src @ extra)" using frame_values[OF fr b2] .
  then have v3: "values_of h1 src = values_of h src" by simp
  have "values_of h src ! k = ?v" using k by (simp add: values_of_nth)
  then have dr: "drop k (values_of h src) = ?v # drop (Suc k) (values_of h src)"
    using k by (metis Cons_nth_drop_Suc values_of_length)
  have vnew': "values_of h1 [?new] = [?v]" using vnew by (simp add: values_of_def)
  have "values_of h' (cur @ (?new # news)) = values_of h cur @ drop k (values_of h src)"
    using vs v1 v3 dr vnew' by simp
  moreover have "ring h' l (cur @ (?new # news))" using r' by simp
  moreover have "other \<noteq> l \<longrightarrow> ring h' other (src @ extra) \<and>
                     values_of h' (src @ extra) = values_of h (src @ extra)"
    using oth ex v2 by auto
  ultimately show ?case using step by blast
qed

lemma PushFrontList_loop_spec:
  "ring h l cur \<Longrightarrow> ring h other (extra @ src) \<Longrightarrow> k \<le> length src \<Longrightarrow>
   (0 < k \<longrightarrow> e = Some (Node (src ! (k - 1)))) \<Longrightarrow>
   \<exists>h' news. PushFrontList_loop l (int k) e h = Some h' \<and>
      ring h' l (news @ cur) \<and>
      values_of h' (news @ cur) = take k (values_of h src) @ values_of h cur \<and>
      (other \<noteq> l \<longrightarrow> ring h' other (extra @ src) \<and>
                     values_of h' (extra @ src) = values_of h (extra @ src))"
proof (induction k arbitrary: e h cur extra)
  case 0
  have "PushFrontList_loop l (int 0) e h = Some h"
    by (subst PushFrontList_loop.simps) simp
  then show ?case using 0 by (intro exI[of _ h] exI[of _ "[]"]) simp
next
  case (Suc k)
  then have k: "k < length src" and e: "e = Some (Node (src ! k))" by auto
  let ?v = "Value (elem h (Node (src ! k)))"
  let ?new = "next_elem h"
  obtain h1 where ins: "insertValue l ?v (Some (Root l)) h = Some (Some (Node ?new), h1)"
    and r1: "ring h1 l (?new # cur)" and fr: "frame l h h1"
    and vnew: "Value (elem h1 (Node ?new)) = ?v"
    using push_front_ring[OF Suc.prems(1), of ?v] by blast
  obtain extra' where ro: "ring h1 other (extra' @ src)"
    and ex: "other \<noteq> l \<longrightarrow> extra' = extra"
  proof (cases "other = l")
    case True
    then have "cur = extra @ src" using ring_unique Suc.prems(1,2) by blast
    then have "ring h1 other ((?new # extra) @ src)" using r1 True by simp
    then show ?thesis using that True by blast
  next
    case False
    then show ?thesis using that frame_ring[OF fr False Suc.prems(2)] by blast
  qed
  define idx where "idx = length extra' + k"
  have nth: "(extra' @ src) ! idx = src ! k" by (simp add: idx_def)
  define e' where "e' = (if 0 < idx then Some (Node ((extra' @ src) ! (idx - 1))) else None)"
  have "Prev (Some (Node ((extra' @ src) ! idx))) h1 = Some e'"
    unfolding e'_def by (rule ring_Prev[OF ro]) (use k in \<open>simp add: idx_def\<close>)
  then have nx: "Prev e h1 = Some e'" using e nth by simp
  have e': "0 < k \<longrightarrow> e' = Some (Node (src ! (k - 1)))"
  proof
    assume "0 < k"
    then have "idx - 1 = length extra' + (k - 1)" "0 < idx" by (auto simp: idx_def)
    then show "e' = Some (Node (src ! (k - 1)))" by (simp add: e'_def)
  qed
  obtain h' news where lp: "PushFrontList_loop l (int k) e' h1 = Some h'"
    and r': "ring h' l (news @ (?new # cur))"
    and vs: "values_of h' (news @ (?new # cur)) =
             take k (values_of h1 src) @ values_of h1 (?new # cur)"
    and oth: "other \<noteq> l \<longrightarrow> ring h' other (extra' @ src) \<and>
                     values_of h' (extra' @ src) = values_of h1 (extra' @ src)"
    using Suc.IH[OF r1 ro _ e'] k by auto
  have step: "PushFrontList_loop l (int (Suc k)) e h = Some h'"
    using k e ins nx lp
    by (subst PushFrontList_loop.simps) (simp add: algebra_simps)
  have b1: "\<forall>n \<in> set cur. n < next_elem h" using ring_bound[OF Suc.prems(1)] .
  have b2: "\<forall>n \<in> set (extra @ src). n < next_elem h" using ring_bound[OF Suc.prems(2)] .
  have v1: "values_of h1 cur = values_of h cur" using frame_values[OF fr b1] .
  have v2: "values_of h1 (extra @ src) = values_of h (extra @ src)" using frame_values[OF fr b2] .
  then have v3: "values_of h1 src = values_of h src" by simp
  have "values_of h src ! k = ?v" using k by (simp add: values_of_nth)
  then have tk: "take (Suc k) (values_of h src) = take k (values_of h src) @ [?v]"
    using k by (metis take_Suc_conv_app_nth values_of_length)
  have vnew': "values_of h1 (?new # cur) = ?v # values_of h cur"
    using vnew v1 by (simp add: values_of_def)
  have "values_of h' ((news @ [?new]) @ cur) = take (Suc k) (values_of h src) @ values_of h cur"
    using vs v3 tk vnew' by simp
  moreover have "ring h' l ((news @ [?new]) @ cur)" using r' by simp
  moreover have "other \<noteq> l \<longrightarrow> ring h' other (extra @ src) \<and>
                     values_of h' (extra @ src) = values_of h (extra @ src)"
    using oth ex v2 by auto
  ultimately show ?case using step by blast
qed

lemma FrontAll_loop_ring:
  "ring h l ns \<Longrightarrow> k \<le> length ns \<Longrightarrow> (k < length ns \<longrightarrow> e = Some (Node (ns ! k))) \<Longrightarrow>
   FrontAll_loop (int (length ns)) (int k) e h = Some (drop k (values_of h ns))"
proof (induction "length ns - k" arbitrary: k e)
  case 0
  then show ?case by (subst FrontAll_loop.simps) simp
next
  case (Suc n)
  then have k: "k < length ns" and e: "e = Some (Node (ns ! k))" by auto
  let ?e' = "if Suc k < length ns then Some (Node (ns ! Suc k)) else None"
  have nx: "Next e h = Some ?e'" using ring_Next[OF Suc.prems(1) k] e by simp
  have "FrontAll_loop (int (length ns)) (int (Suc k)) ?e' h = Some (drop (Suc k) (values_of h ns))"
    using Suc.hyps(1)[of "Suc k" ?e'] Suc.hyps(2) Suc.prems(1) k by auto
  moreover have "drop k (values_of h ns) = Value (elem h (Node (ns ! k))) # drop (Suc k) (values_of h ns)"
    using k by (metis Cons_nth_drop_Suc values_of_length values_of_nth)
  ultimately show ?case using k e nx
    by (subst FrontAll_loop.simps) (simp add: algebra_simps)
qed

lemma search_loop_absent:
  "ring h l ns \<Longrightarrow> v \<notin> set (values_of h ns) \<Longrightarrow> k \<le> length ns \<Longrightarrow>
   (k < length ns \<longrightarrow> e = Some (Node (ns ! k))) \<Longrightarrow>
   search_loop l v (int k) e h = Some None"
proof (induction "length ns - k" arbitrary: k e)
  case 0
  then have "\<not> int k < len h l" by (simp add: ring_def)
  then show ?case by (subst search_loop.simps) simp
next
  case (Suc n)
  then have k: "k < length ns" and e: "e = Some (Node (ns ! k))" by auto
  have lt: "int k < len h l" using k Suc.prems(1) by (simp add: ring_def)
  let ?e' = "if Suc k < length ns then Some (Node (ns ! Suc k)) else None"
  have nx: "Next e h = Some ?e'" using ring_Next[OF Suc.prems(1) k] e by simp
  have ne: "Value (elem h (Node (ns ! k))) \<noteq> v"
    using Suc.prems(2) k by (metis nth_mem values_of_length values_of_nth)
  have "search_loop l v (int (Suc k)) ?e' h = Some None"
    using Suc.hyps(1)[of "Suc k" ?e'] Suc.hyps(2) Suc.prems(1,2) k by auto
  then show ?case using lt e nx ne
    by (subst search_loop.simps) (simp add: algebra_simps)
qed

lemma search_absent:
  assumes "is_list h l ns" "v \<notin> set (values_of h ns)"
  shows "search l v h = Some None"
proof (cases "ns = []")
  case True
  then have "len h l = 0" using assms(1) by (auto simp: is_list_def ring_def split: if_splits)
  then show ?thesis by (simp add: search_def)
next
  case False
  then have r: "ring h l ns" using assms(1) by (auto simp: is_list_def split: if_splits)
  show ?thesis
    using search_loop_absent[OF r assms(2), of 0 "e_next (elem h (Root l))"] ring_front[OF r False]
    by (simp add: search_def)
qed

lemma List_Remove_loop_absent:
  "is_list h l ns \<Longrightarrow> set vs \<inter> set (values_of h ns) = {} \<Longrightarrow>
   List_Remove_loop l vs changed h = Some (changed, h)"
  by (induction vs) (auto simp: search_absent)

lemma holds_len: "holds h l s \<Longrightarrow> len h l = int (length s)"
  by (auto simp: holds_def is_list_def ring_def split: if_splits)

lemma FrontAll_ring:
  assumes r: "ring h l ns"
  shows "FrontAll l h = Some (values_of h ns, h)"
proof (cases "ns = []")
  case True
  then show ?thesis using r lazyInit_id[OF r] by (simp add: FrontAll_def List_Len_def ring_def values_of_def)
next
  case False
  have "FrontAll_loop (int (length ns)) (int 0) (e_next (elem h (Root l))) h = Some (drop 0 (values_of h ns))"
    by (rule FrontAll_loop_ring[OF r]) (use ring_front[OF r False] in auto)
  moreover have "len h l = int (length ns)" using r by (simp add: ring_def)
  ultimately show ?thesis using False lazyInit_id[OF r]
    by (simp add: FrontAll_def List_Len_def Let_def)
qed

lemma FrontAll_holds:
  assumes "holds h l s"
  shows "FrontAll l h = Some (s, lazyInit l h) \<and> holds (lazyInit l h) l s"
proof -
  obtain ns where n: "is_list h l ns" "values_of h ns = s" using assms by (auto simp: holds_def)
  have r: "ring (lazyInit l h) l ns" using lazyInit_ring[OF n(1)] .
  have "lazyInit l (lazyInit l h) = lazyInit l h" using lazyInit_id[OF r] .
  then have "FrontAll l h = FrontAll l (lazyInit l h)" by (simp add: FrontAll_def)
  then show ?thesis using FrontAll_ring[OF r] n(2) ring_is_list[OF r]
    by (auto simp: lazyInit_values holds_def)
qed

lemma PushBackList_holds:
  assumes hl: "holds h l s" and ho: "holds h other t"
  shows "\<exists>h'. PushBackList l other h = Some h' \<and> holds h' l (s @ t) \<and>
              (other \<noteq> l \<longrightarrow> holds h' other t) \<and> FrontAll l h' = Some (s @ t, h')"
proof -
  obtain ns where n: "is_list h l ns" "values_of h ns = s" using hl by (auto simp: holds_def)
  obtain ms where m: "is_list h other ms" "values_of h ms = t" using ho by (auto simp: holds_def)
  let ?h1 = "lazyInit l h"
  have r: "ring ?h1 l ns" using lazyInit_ring[OF n(1)] .
  have vn: "values_of ?h1 ns = s" "values_of ?h1 ms = t" using n m by (simp_all add: lazyInit_values)
  have mo: "is_list ?h1 other ms"
  proof (cases "other = l")
    case True
    then show ?thesis using ring_is_list[OF r] n(1) m(1)
      by (metis is_list_def lazyInit_ring ring_unique)
  next
    case False
    then show ?thesis using frame_is_list[OF lazyInit_frame _ m(1)] by simp
  qed
  show ?thesis
  proof (cases "e_next (elem ?h1 (Root other)) = None")
    case True
    then have z: "ms = []" "len ?h1 other = 0" using mo by (auto simp: is_list_def)
    have "PushBackList_loop l 0 (e_next (elem ?h1 (Root other))) ?h1 = Some ?h1"
      by (subst PushBackList_loop.simps) simp
    then have "PushBackList l other h = Some ?h1" using z by (simp add: PushBackList_def)
    moreover have "holds ?h1 l s" using ring_is_list[OF r] vn by (auto simp: holds_def)
    moreover have "holds ?h1 other t" using mo vn by (auto simp: holds_def)
    moreover have "t = []" using z vn by (simp add: values_of_def)
    moreover have "FrontAll l ?h1 = Some (s, ?h1)" using FrontAll_ring[OF r] vn by simp
    ultimately show ?thesis by simp
  next
    case False
    then have ro: "ring ?h1 other (ms @ [])" using mo by (simp add: is_list_def)
    have e: "0 < length ms \<longrightarrow> e_next (elem ?h1 (Root other)) = Some (Node (ms ! 0))"
      using ring_front[of ?h1 other ms] ro by auto
    obtain h' news where lp: "PushBackList_loop l (int (length ms) - int 0)
          (e_next (elem ?h1 (Root other))) ?h1 = Some h'"
      and r': "ring h' l (ns @ news)"
      and vs: "values_of h' (ns @ news) = values_of ?h1 ns @ drop 0 (values_of ?h1 ms)"
      and oth: "other \<noteq> l \<longrightarrow> ring h' other (ms @ []) \<and>
                     values_of h' (ms @ []) = values_of ?h1 (ms @ [])"
      using PushBackList_loop_spec[OF r ro, of 0 "e_next (elem ?h1 (Root other))"] e by blast
    have "len ?h1 other = int (length ms)" using ro by (simp add: ring_def)
    then have "PushBackList l other h = Some h'" using lp by (simp add: PushBackList_def)
    moreover have "holds h' l (s @ t)" using ring_is_list[OF r'] vs vn unfolding holds_def by auto
    moreover have "other \<noteq> l \<longrightarrow> holds h' other t"
      using oth vn ring_is_list unfolding holds_def by fastforce
    moreover have "FrontAll l h' = Some (s @ t, h')" using FrontAll_ring[OF r'] vs vn by simp
    ultimately show ?thesis by blast
  qed
qed

lemma ring_back_idx:
  "ring h l ns \<Longrightarrow> ns \<noteq> [] \<Longrightarrow> e_prev (elem h (Root l)) = Some (Node (ns ! (length ns - 1)))"
  using ring_back_node[of h l ns] by (simp add: last_conv_nth)

lemma PushFrontList_holds:
  assumes hl: "holds h l s" and ho: "holds h other t"
  shows "\<exists>h'. PushFrontList l other h = Some h' \<and> holds h' l (t @ s) \<and>
              (other \<noteq> l \<longrightarrow> holds h' other t) \<and> FrontAll l h' = Some (t @ s, h')"
proof -
  obtain ns where n: "is_list h l ns" "values_of h ns = s" using hl by (auto simp: holds_def)
  obtain ms where m: "is_list h other ms" "values_of h ms = t" using ho by (auto simp: holds_def)
  let ?h1 = "lazyInit l h"
  have r: "ring ?h1 l ns" using lazyInit_ring[OF n(1)] .
  have vn: "values_of ?h1 ns = s" "values_of ?h1 ms = t" using n m by (simp_all add: lazyInit_values)
  have mo: "is_list ?h1 other ms"
  proof (cases "other = l")
    case True
    then show ?thesis using ring_is_list[OF r] n(1) m(1)
      by (metis is_list_def lazyInit_ring ring_unique)
  next
    case False
    then show ?thesis using frame_is_list[OF lazyInit_frame _ m(1)] by simp
  qed
  show ?thesis
  proof (cases "e_next (elem ?h1 (Root other)) = None")
    case True
    then have z: "ms = []" "len ?h1 other = 0" using mo by (auto simp: is_list_def)
    have "PushFrontList_loop l 0 (e_prev (elem ?h1 (Root other))) ?h1 = Some ?h1"
      by (subst PushFrontList_loop.simps) simp
    then have "PushFrontList l other h = Some ?h1" using z by (simp add: PushFrontList_def)
    moreover have "holds ?h1 l s" using ring_is_list[OF r] vn by (auto simp: holds_def)
    moreover have "holds ?h1 other t" using mo vn by (auto simp: holds_def)
    moreover have "t = []" using z vn by (simp add: values_of_def)
    moreover have "FrontAll l ?h1 = Some (s, ?h1)" using FrontAll_ring[OF r] vn by simp
    ultimately show ?thesis by simp
  next
    case False
    then have ro: "ring ?h1 other ([] @ ms)" using mo by (simp add: is_list_def)
    have e: "0 < length ms \<longrightarrow> e_prev (elem ?h1 (Root other)) = Some (Node (ms ! (length ms - 1)))"
      using ring_back_idx[of ?h1 other ms] ro by auto
    obtain h' news where lp: "PushFrontList_loop l (int (length ms))
          (e_prev (elem ?h1 (Root other))) ?h1 = Some h'"
      and r': "ring h' l (news @ ns)"
      and vs0: "values_of h' (news @ ns) = take (length ms) (values_of ?h1 ms) @ values_of ?h1 ns"
      and oth: "other \<noteq> l \<longrightarrow> ring h' other ([] @ ms) \<and>
                     values_of h' ([] @ ms) = values_of ?h1 ([] @ ms)"
      using PushFrontList_loop_spec[OF r ro, of "length ms" "e_prev (elem ?h1 (Root other))"] e by blast
    have "take (length ms) (values_of ?h1 ms) = values_of ?h1 ms" by simp
    then have vs: "values_of h' (news @ ns) = t @ s" using vs0 vn by simp
    have "len ?h1 other = int (length ms)" using ro by (simp add: ring_def)
    then have "PushFrontList l other h = Some h'" using lp by (simp add: PushFrontList_def)
    moreover have "holds h' l (t @ s)" using ring_is_list[OF r'] vs vn unfolding holds_def by auto
    moreover have "other \<noteq> l \<longrightarrow> holds h' other t"
      using oth vn ring_is_list unfolding holds_def by fastforce
    moreover have "FrontAll l h' = Some (t @ s, h')" using FrontAll_ring[OF r'] vs vn by simp
    ultimately show ?thesis by blast
  qed
qed

text \<open>
  Claim C1. For a list \<open>l\<close> holding the values \<open>s\<close>, \<open>l.PushBackList(l)\<close> and
  \<open>l.PushFrontList(l)\<close> return and leave \<open>l\<close> holding \<open>s\<close> followed by \<open>s\<close>: the
  length is doubled and the values are duplicated once, in order. For a distinct list
  \<open>other\<close> holding \<open>t\<close>, \<open>PushBackList(other)\<close> leaves \<open>l\<close> holding \<open>s @ t\<close>,
  \<open>PushFrontList(other)\<close> leaves it holding \<open>t @ s\<close>, and \<open>other\<close> still holds \<open>t\<close>.
\<close>

theorem push_list_copies_values:
  assumes "holds h l s"
  shows "(\<exists>h'. PushBackList l l h = Some h' \<and> holds h' l (s @ s) \<and>
               List_Len l h' = 2 * List_Len l h \<and> FrontAll l h' = Some (s @ s, h')) \<and>
         (\<exists>h'. PushFrontList l l h = Some h' \<and> holds h' l (s @ s) \<and>
               List_Len l h' = 2 * List_Len l h \<and> FrontAll l h' = Some (s @ s, h')) \<and>
         (\<forall>other t. other \<noteq> l \<and> holds h other t \<longrightarrow>
            (\<exists>h'. PushBackList l other h = Some h' \<and> holds h' l (s @ t) \<and> holds h' other t) \<and>
            (\<exists>h'. PushFrontList l other h = Some h' \<and> holds h' l (t @ s) \<and> holds h' other t))"
proof -
  have a: "\<exists>h'. PushBackList l l h = Some h' \<and> holds h' l (s @ s) \<and>
               List_Len l h' = 2 * List_Len l h \<and> FrontAll l h' = Some (s @ s, h')"
    using PushBackList_holds[OF assms assms] holds_len[OF assms] holds_len[of _ l "s @ s"]
    by (auto simp: List_Len_def)
  have b: "\<exists>h'. PushFrontList l l h = Some h' \<and> holds h' l (s @ s) \<and>
               List_Len l h' = 2 * List_Len l h \<and> FrontAll l h' = Some (s @ s, h')"
    using PushFrontList_holds[OF assms assms] holds_len[OF assms] holds_len[of _ l "s @ s"]
    by (auto simp: List_Len_def)
  have c: "\<forall>other t. other \<noteq> l \<and> holds h other t \<longrightarrow>
            (\<exists>h'. PushBackList l other h = Some h' \<and> holds h' l (s @ t) \<and> holds h' other t) \<and>
            (\<exists>h'. PushFrontList l other h = Some h' \<and> holds h' l (t @ s) \<and> holds h' other t)"
    using PushBackList_holds[OF assms] PushFrontList_holds[OF assms] by blast
  show ?thesis using a b c by blast
qed

lemma frame_trans:
  assumes a: "frame l h h1" and b: "frame l h1 h2"
  shows "frame l h h2"
  unfolding frame_def
proof (intro conjI allI impI)
  show "next_elem h \<le> next_elem h2" using a b by (auto simp: frame_def)
next
  fix q assume "q \<noteq> l"
  then show "elem h2 (Root q) = elem h (Root q)" using a b by (simp add: frame_def)
next
  fix q assume "q \<noteq> l"
  then show "len h2 q = len h q" using a b by (simp add: frame_def)
next
  fix n assume n: "n < next_elem h \<and> e_list (elem h (Node n)) \<noteq> Some l"
  then have 1: "elem h1 (Node n) = elem h (Node n)" using a by (simp add: frame_def)
  have "n < next_elem h1" using n a by (auto simp: frame_def)
  then have "elem h2 (Node n) = elem h1 (Node n)" using b n 1 by (simp add: frame_def)
  then show "elem h2 (Node n) = elem h (Node n)" using 1 by simp
next
  fix n assume n: "n < next_elem h"
  then have 1: "Value (elem h1 (Node n)) = Value (elem h (Node n))" using a by (simp add: frame_def)
  have "n < next_elem h1" using n a by (auto simp: frame_def)
  then have "Value (elem h2 (Node n)) = Value (elem h1 (Node n))" using b by (simp add: frame_def)
  then show "Value (elem h2 (Node n)) = Value (elem h (Node n))" using 1 by simp
next
  show "e_list (elem h2 (Root l)) = e_list (elem h (Root l))" using a b by (simp add: frame_def)
next
  show "Value (elem h2 (Root l)) = Value (elem h (Root l))" using a b by (simp add: frame_def)
qed

lemma frame_sentinel: "frame l h h' \<Longrightarrow> sentinel z h q \<Longrightarrow> sentinel z h' q"
  by (cases "q = l") (auto simp: frame_def sentinel_def)

lemma frame_holds:
  assumes f: "frame l h h'" and ql: "q \<noteq> l" and hq: "holds h q t"
  shows "holds h' q t"
proof -
  obtain ns where n: "is_list h q ns" "values_of h ns = t" using hq by (auto simp: holds_def)
  have b: "\<forall>n \<in> set ns. n < next_elem h"
    using n(1) by (auto simp: is_list_def ring_def split: if_splits)
  show ?thesis using frame_is_list[OF f ql n(1)] frame_values[OF f b] n(2)
    by (auto simp: holds_def)
qed

lemma removeE_spec:
  assumes "e_prev (elem h e) = Some p" "e_next (elem h e) = Some n" "e \<noteq> p" "e \<noteq> n"
  shows "\<exists>h'. removeE l (Some e) h = Some h' \<and>
     e_next (elem h' p) = Some n \<and> e_prev (elem h' n) = Some p \<and>
     e_next (elem h' e) = None \<and> e_prev (elem h' e) = None \<and> e_list (elem h' e) = None \<and>
     (\<forall>r. r \<noteq> p \<and> r \<noteq> e \<longrightarrow> e_next (elem h' r) = e_next (elem h r)) \<and>
     (\<forall>r. r \<noteq> n \<and> r \<noteq> e \<longrightarrow> e_prev (elem h' r) = e_prev (elem h r)) \<and>
     (\<forall>r. r \<noteq> e \<longrightarrow> e_list (elem h' r) = e_list (elem h r)) \<and>
     (\<forall>r. Value (elem h' r) = Value (elem h r)) \<and>
     len h' = (len h)(l := len h l - 1) \<and> next_elem h' = next_elem h \<and>
     next_list h' = next_list h"
  using assms by (auto simp: removeE_def Let_def)

lemma chain_splice:
  "chain h a xs m \<Longrightarrow> chain h m ys b \<Longrightarrow>
   e_next (elem h' (last (a # xs))) = Some (hd (ys @ [b])) \<Longrightarrow>
   e_prev (elem h' (hd (ys @ [b]))) = Some (last (a # xs)) \<Longrightarrow>
   (\<forall>r \<in> set (butlast (a # xs)). e_next (elem h' r) = e_next (elem h r)) \<Longrightarrow>
   (\<forall>r \<in> set xs. e_prev (elem h' r) = e_prev (elem h r)) \<Longrightarrow>
   (\<forall>r \<in> set ys. e_next (elem h' r) = e_next (elem h r)) \<Longrightarrow>
   (\<forall>r \<in> set (tl (ys @ [b])). e_prev (elem h' r) = e_prev (elem h r)) \<Longrightarrow>
   chain h' a (xs @ ys) b"
proof (induction xs arbitrary: a)
  case Nil
  show ?case
  proof (cases ys)
    case Nil
    then show ?thesis using Nil.prems by simp
  next
    case (Cons y ys')
    then have c: "chain h y ys' b" using Nil.prems(2) by simp
    have "chain h' y ys' b"
      by (rule chain_cong[OF c]) (use Nil.prems Cons in auto)
    then show ?thesis using Nil.prems Cons by simp
  qed
next
  case (Cons x xs)
  have c: "chain h x xs m" using Cons.prems(1) by simp
  have "chain h' x (xs @ ys) b"
    by (rule Cons.IH[OF c Cons.prems(2)]) (use Cons.prems in auto)
  moreover have "e_next (elem h' a) = Some x" "e_prev (elem h' x) = Some a"
    using Cons.prems by auto
  ultimately show ?case by simp
qed

lemma remove_ring:
  assumes r: "ring h l (xs @ m # ys)"
  shows "\<exists>h'. removeE l (Some (Node m)) h = Some h' \<and> ring h' l (xs @ ys) \<and> frame l h h' \<and>
              e_list (elem h' (Node m)) = None"
proof -
  let ?p = "last (Root l # map Node xs)"
  let ?n = "hd (map Node ys @ [Root l])"
  have c: "chain h (Root l) (map Node xs @ Node m # map Node ys) (Root l)"
    and d: "distinct (xs @ m # ys)"
    and b: "\<forall>n \<in> set (xs @ m # ys). e_list (elem h (Node n)) = Some l \<and> n < next_elem h"
    and ln: "len h l = int (length (xs @ m # ys))"
    using r by (auto simp: ring_def)
  have c1: "chain h (Root l) (map Node xs) (Node m)" and c2: "chain h (Node m) (map Node ys) (Root l)"
    using c by (auto simp: chain_append)
  have pv: "e_prev (elem h (Node m)) = Some ?p" using chain_last[OF c1] .
  have nx: "e_next (elem h (Node m)) = Some ?n" using chain_first[OF c2] by (simp add: hd_conv_nth)
  have p_cases: "?p = Root l \<or> (\<exists>x \<in> set xs. ?p = Node x)"
    by (cases xs rule: rev_cases) auto
  have n_cases: "?n = Root l \<or> (\<exists>y \<in> set ys. ?n = Node y)"
    by (cases ys) auto
  have mp: "Node m \<noteq> ?p" using p_cases d by auto
  have mn: "Node m \<noteq> ?n" using n_cases d by auto
  obtain h' where rm: "removeE l (Some (Node m)) h = Some h'"
    and pn: "e_next (elem h' ?p) = Some ?n" and np: "e_prev (elem h' ?n) = Some ?p"
    and ml: "e_list (elem h' (Node m)) = None"
    and nxs: "\<forall>r. r \<noteq> ?p \<and> r \<noteq> Node m \<longrightarrow> e_next (elem h' r) = e_next (elem h r)"
    and pvs: "\<forall>r. r \<noteq> ?n \<and> r \<noteq> Node m \<longrightarrow> e_prev (elem h' r) = e_prev (elem h r)"
    and ls: "\<forall>r. r \<noteq> Node m \<longrightarrow> e_list (elem h' r) = e_list (elem h r)"
    and vs: "\<forall>r. Value (elem h' r) = Value (elem h r)"
    and ln': "len h' = (len h)(l := len h l - 1)" and ne: "next_elem h' = next_elem h"
    using removeE_spec[OF pv nx mp mn, of l] by blast
  have dx: "distinct (Root l # map Node xs)" using d by (auto simp: distinct_map inj_on_def)
  have bl: "\<forall>r \<in> set (butlast (Root l # map Node xs)). r \<noteq> ?p"
    using dx by (metis distinct_butlast append_butlast_last_id distinct_append
        disjoint_iff list.set_intros(1) list.simps(3) not_distinct_conv_prefix)
  have ch: "chain h' (Root l) (map Node xs @ map Node ys) (Root l)"
  proof (rule chain_splice[OF c1 c2 pn np])
    show "\<forall>r\<in>set (butlast (Root l # map Node xs)). e_next (elem h' r) = e_next (elem h r)"
    proof
      fix r assume a: "r \<in> set (butlast (Root l # map Node xs))"
      then have "r \<noteq> ?p" using bl by blast
      moreover have "r \<in> set (Root l # map Node xs)" using a by (rule in_set_butlastD)
      then have "r \<noteq> Node m" using d by auto
      ultimately show "e_next (elem h' r) = e_next (elem h r)" using nxs by blast
    qed
    show "\<forall>r\<in>set (map Node xs). e_prev (elem h' r) = e_prev (elem h r)"
    proof
      fix r assume a: "r \<in> set (map Node xs)"
      then have "r \<noteq> ?n" using n_cases d by auto
      moreover have "r \<noteq> Node m" using a d by auto
      ultimately show "e_prev (elem h' r) = e_prev (elem h r)" using pvs by blast
    qed
    show "\<forall>r\<in>set (map Node ys). e_next (elem h' r) = e_next (elem h r)"
    proof
      fix r assume a: "r \<in> set (map Node ys)"
      then have "r \<noteq> ?p" using p_cases d by auto
      moreover have "r \<noteq> Node m" using a d by auto
      ultimately show "e_next (elem h' r) = e_next (elem h r)" using nxs by blast
    qed
    show "\<forall>r\<in>set (tl (map Node ys @ [Root l])). e_prev (elem h' r) = e_prev (elem h r)"
    proof
      fix r assume a: "r \<in> set (tl (map Node ys @ [Root l]))"
      have dy: "distinct (map Node ys @ [Root l])" using d by (auto simp: distinct_map inj_on_def)
      have "map Node ys @ [Root l] = ?n # tl (map Node ys @ [Root l])" by simp
      then have "r \<noteq> ?n" using a dy by (metis distinct.simps(2))
      moreover have "r \<in> set (map Node ys @ [Root l])" using a by (meson list.set_sel(2) snoc_eq_iff_butlast)
      then have "r \<noteq> Node m" using d by auto
      ultimately show "e_prev (elem h' r) = e_prev (elem h r)" using pvs by blast
    qed
  qed
  have r': "ring h' l (xs @ ys)"
    using ch d b ln ln' ls ne by (auto simp: ring_def)
  have fr: "frame l h h'"
    unfolding frame_def
  proof (intro conjI allI impI)
    show "next_elem h \<le> next_elem h'" using ne by simp
  next
    fix q assume q: "q \<noteq> l"
    then have "Root q \<noteq> ?p" "Root q \<noteq> ?n" using p_cases n_cases by auto
    then show "elem h' (Root q) = elem h (Root q)"
      using nxs pvs ls vs by (simp add: Element.equality)
  next
    fix q assume "q \<noteq> l"
    then show "len h' q = len h q" using ln' by simp
  next
    fix k assume a: "k < next_elem h \<and> e_list (elem h (Node k)) \<noteq> Some l"
    then have "Node k \<noteq> ?p" "Node k \<noteq> ?n" "Node k \<noteq> Node m" using p_cases n_cases b by auto
    then show "elem h' (Node k) = elem h (Node k)"
      using nxs pvs ls vs by (simp add: Element.equality)
  next
    fix k assume "k < next_elem h"
    show "Value (elem h' (Node k)) = Value (elem h (Node k))" using vs by simp
  next
    show "e_list (elem h' (Root l)) = e_list (elem h (Root l))" using ls by simp
  next
    show "Value (elem h' (Root l)) = Value (elem h (Root l))" using vs by simp
  qed
  show ?thesis using rm r' fr ml by blast
qed

lemma New_spec:
  "\<exists>h'. New z sf h = (next_list h, h') \<and> ring h' (next_list h) [] \<and> sentinel z h' (next_list h) \<and>
        mu_safe h' (next_list h) = sf \<and>
        next_elem h' = next_elem h \<and> next_list h' = Suc (next_list h) \<and>
        (\<forall>q. q \<noteq> next_list h \<longrightarrow> elem h' (Root q) = elem h (Root q) \<and> len h' q = len h q) \<and>
        (\<forall>n. elem h' (Node n) = elem h (Node n))"
  by (simp add: New_def Init_def Let_def ring_def sentinel_def zero_Element_def)

lemma New_holds_other:
  assumes n: "New z sf h = (l, h')" and ql: "q \<noteq> l" and hq: "holds h q t"
  shows "holds h' q t"
proof -
  obtain ns where ns: "is_list h q ns" "values_of h ns = t" using hq by (auto simp: holds_def)
  have l: "l = next_list h" using n New_spec[of z sf h] by auto
  have same: "elem h' (Root q) = elem h (Root q)" "len h' q = len h q"
    "\<forall>n. elem h' (Node n) = elem h (Node n)" "next_elem h' = next_elem h"
    using n New_spec[of z sf h] ql l by auto
  have "ring h q ns \<Longrightarrow> ring h' q ns"
  proof -
    assume r: "ring h q ns"
    then have c: "chain h (Root q) (map Node ns) (Root q)" by (simp add: ring_def)
    have "chain h' (Root q) (map Node ns) (Root q)"
      by (rule chain_cong[OF c]) (use same in auto)
    then show "ring h' q ns" using r same by (simp add: ring_def)
  qed
  then have "is_list h' q ns" using ns(1) same by (auto simp: is_list_def)
  moreover have "values_of h' ns = t" using ns(2) same by (simp add: values_of_def)
  ultimately show ?thesis by (auto simp: holds_def)
qed

lemma PushBack_holds:
  assumes "holds h l s"
  shows "\<exists>h'. PushBack l v h = Some (Some (Node (next_elem h)), h') \<and> holds h' l (s @ [v]) \<and>
              frame l h h' \<and> e_list (elem h' (Node (next_elem h))) = Some l"
proof -
  obtain ns where n: "is_list h l ns" "values_of h ns = s" using assms by (auto simp: holds_def)
  let ?h1 = "lazyInit l h"
  have r: "ring ?h1 l ns" using lazyInit_ring[OF n(1)] .
  have ne: "next_elem ?h1 = next_elem h" by (simp add: lazyInit_def Init_def)
  obtain h' where ins: "insertValue l v (e_prev (elem ?h1 (Root l))) ?h1 = Some (Some (Node (next_elem h)), h')"
    and r': "ring h' l (ns @ [next_elem h])" and fr: "frame l ?h1 h'"
    and vn: "Value (elem h' (Node (next_elem h))) = v"
    using push_back_ring[OF r, of v] ne by auto
  have b: "\<forall>n \<in> set ns. n < next_elem ?h1" using ring_bound[OF r] .
  have "values_of h' ns = s" using frame_values[OF fr b] n(2) by (simp add: lazyInit_values)
  then have "values_of h' (ns @ [next_elem h]) = s @ [v]" using vn by (simp add: values_of_def)
  then have "holds h' l (s @ [v])" using ring_is_list[OF r'] by (auto simp: holds_def)
  moreover have "frame l h h'" using frame_trans[OF lazyInit_frame fr] .
  moreover have "e_list (elem h' (Node (next_elem h))) = Some l" using r' by (simp add: ring_def)
  ultimately show ?thesis using ins by (simp add: PushBack_def Let_def)
qed

lemma PushFront_holds:
  assumes "holds h l s"
  shows "\<exists>h'. PushFront l v h = Some (Some (Node (next_elem h)), h') \<and> holds h' l (v # s) \<and>
              frame l h h' \<and> e_list (elem h' (Node (next_elem h))) = Some l"
proof -
  obtain ns where n: "is_list h l ns" "values_of h ns = s" using assms by (auto simp: holds_def)
  let ?h1 = "lazyInit l h"
  have r: "ring ?h1 l ns" using lazyInit_ring[OF n(1)] .
  have ne: "next_elem ?h1 = next_elem h" by (simp add: lazyInit_def Init_def)
  obtain h' where ins: "insertValue l v (Some (Root l)) ?h1 = Some (Some (Node (next_elem h)), h')"
    and r': "ring h' l (next_elem h # ns)" and fr: "frame l ?h1 h'"
    and vn: "Value (elem h' (Node (next_elem h))) = v"
    using push_front_ring[OF r, of v] ne by auto
  have b: "\<forall>n \<in> set ns. n < next_elem ?h1" using ring_bound[OF r] .
  have "values_of h' ns = s" using frame_values[OF fr b] n(2) by (simp add: lazyInit_values)
  then have "values_of h' (next_elem h # ns) = v # s" using vn by (simp add: values_of_def)
  then have "holds h' l (v # s)" using ring_is_list[OF r'] by (auto simp: holds_def)
  moreover have "frame l h h'" using frame_trans[OF lazyInit_frame fr] .
  moreover have "e_list (elem h' (Node (next_elem h))) = Some l" using r' by (simp add: ring_def)
  ultimately show ?thesis using ins by (simp add: PushFront_def Let_def)
qed

lemma PopBack_holds:
  assumes "holds h l (s @ [v])"
  shows "\<exists>h'. PopBack z l h = Some (v, h') \<and> holds h' l s \<and> frame l h h'"
proof -
  obtain ns where n: "is_list h l ns" "values_of h ns = s @ [v]" using assms by (auto simp: holds_def)
  then have "ns \<noteq> []" by (auto simp: values_of_def)
  then obtain ms m where ms: "ns = ms @ [m]" by (cases ns rule: rev_cases) auto
  have r: "ring h l (ms @ m # [])" using n(1) ms \<open>ns \<noteq> []\<close> by (auto simp: is_list_def split: if_splits)
  have li: "lazyInit l h = h" using lazyInit_id[OF r] .
  have bk: "e_prev (elem h (Root l)) = Some (Node m)" using ring_back_node[OF r] by simp
  have el: "e_list (elem h (Node m)) = Some l" using r by (simp add: ring_def)
  have vm: "Value (elem h (Node m)) = v" "values_of h ms = s" using n(2) ms by (auto simp: values_of_def)
  obtain h' where rm: "removeE l (Some (Node m)) h = Some h'" and r': "ring h' l (ms @ [])"
    and fr: "frame l h h'"
    using remove_ring[OF r] by blast
  have b: "\<forall>n \<in> set ms. n < next_elem h" using ring_bound[OF r] by simp
  have "values_of h' ms = s" using frame_values[OF fr b] vm by simp
  then have "holds h' l s" using r' ring_is_list[of h' l ms] by (auto simp: holds_def)
  then show ?thesis using rm fr li bk el vm by (simp add: PopBack_def Let_def)
qed

lemma PopBack_empty:
  assumes "holds h l []" "sentinel z h l"
  shows "PopBack z l h = Some (z, lazyInit l h) \<and> holds (lazyInit l h) l [] \<and>
         sentinel z (lazyInit l h) l \<and> len (lazyInit l h) l = 0 \<and> frame l h (lazyInit l h)"
proof -
  have il: "is_list h l []" using assms(1) by (auto simp: holds_def values_of_def)
  let ?h1 = "lazyInit l h"
  have r: "ring ?h1 l []" using lazyInit_ring[OF il] .
  have s: "sentinel z ?h1 l" using frame_sentinel[OF lazyInit_frame assms(2)] .
  have bk: "e_prev (elem ?h1 (Root l)) = Some (Root l)" using r by (simp add: ring_def)
  have "holds ?h1 l []" using ring_is_list[OF r] by (auto simp: holds_def values_of_def)
  moreover have "len ?h1 l = 0" using r by (simp add: ring_def)
  ultimately show ?thesis using s bk lazyInit_frame[of l h]
    by (simp add: PopBack_def Let_def sentinel_def)
qed

lemma List_Remove_head:
  assumes r: "ring h l (m # ns)" and v: "Value (elem h (Node m)) = v"
  shows "\<exists>h'. List_Remove l [v] h = Some (True, h') \<and> ring h' l ns \<and> frame l h h'"
proof -
  have ln: "len h l > 0" using r by (simp add: ring_def)
  have fr: "e_next (elem h (Root l)) = Some (Node m)" using ring_front[OF r] by simp
  have "search_loop l v 0 (Some (Node m)) h = Some (Some (Node m))"
    using ln v by (subst search_loop.simps) simp
  then have s: "search l v h = Some (Some (Node m))" using ln fr by (simp add: search_def)
  obtain h' where "removeE l (Some (Node m)) h = Some h'" "ring h' l ([] @ ns)" "frame l h h'"
    using remove_ring[of h l "[]" m ns] r by auto
  then show ?thesis using s by (simp add: List_Remove_def)
qed

lemma traverse_ring:
  "ring h l ns \<Longrightarrow> k < length ns \<Longrightarrow> length ns - k \<le> fuel \<Longrightarrow>
   traverse fuel (Some (Node (ns ! k))) h = Some (drop k (values_of h ns))"
proof (induction fuel arbitrary: k)
  case 0
  then show ?case by simp
next
  case (Suc fuel)
  have nx: "Next (Some (Node (ns ! k))) h =
             Some (if Suc k < length ns then Some (Node (ns ! Suc k)) else None)"
    using ring_Next[OF Suc.prems(1,2)] .
  have dr: "drop k (values_of h ns) = Value (elem h (Node (ns ! k))) # drop (Suc k) (values_of h ns)"
    using Suc.prems(2) by (metis Cons_nth_drop_Suc values_of_length values_of_nth)
  show ?case
  proof (cases "Suc k < length ns")
    case True
    then have "traverse fuel (Some (Node (ns ! Suc k))) h = Some (drop (Suc k) (values_of h ns))"
      using Suc.IH[of "Suc k"] Suc.prems by simp
    then show ?thesis using nx True dr by simp
  next
    case False
    then have "drop (Suc k) (values_of h ns) = []" by simp
    then show ?thesis using nx False dr by simp
  qed
qed

text \<open>
  Claim C9. On a list holding the non-empty sequence \<open>s\<close>, \<open>Back().Next()\<close> is nil,
  \<open>Front().Prev()\<close> is nil, and following \<open>Next()\<close> from \<open>Front()\<close> until nil visits
  the values \<open>s\<close> in order, that is \<open>Len()\<close> elements, and ends.
\<close>

theorem traversal_by_handles:
  assumes "holds h l s" "s \<noteq> []"
  shows "(\<exists>b. Back l h = Some b \<and> Next (Some b) h = Some None) \<and>
         (\<exists>f. Front l h = Some f \<and> Prev (Some f) h = Some None) \<and>
         (\<forall>fuel \<ge> length s. traverse fuel (Front l h) h = Some s) \<and>
         List_Len l h = int (length s)"
proof -
  obtain ns where n: "is_list h l ns" "values_of h ns = s" using assms(1) by (auto simp: holds_def)
  have ne: "ns \<noteq> []" using n(2) assms(2) by (auto simp: values_of_def)
  then have r: "ring h l ns" using n(1) by (auto simp: is_list_def split: if_splits)
  have ln: "len h l = int (length ns)" using r by (simp add: ring_def)
  have lz: "len h l \<noteq> 0" using ln ne by simp
  have fr: "Front l h = Some (Node (ns ! 0))" using ring_front[OF r ne] lz by (simp add: Front_def)
  have bk: "Back l h = Some (Node (ns ! (length ns - 1)))"
    using ring_back_idx[OF r ne] lz by (simp add: Back_def)
  have a: "Next (Some (Node (ns ! (length ns - 1)))) h = Some None"
    using ring_Next[OF r, of "length ns - 1"] ne by simp
  have b: "Prev (Some (Node (ns ! 0))) h = Some None"
    using ring_Prev[OF r, of 0] ne by simp
  have c: "\<forall>fuel \<ge> length s. traverse fuel (Front l h) h = Some s"
    using traverse_ring[OF r, of 0] ne n(2) fr by auto
  have d: "List_Len l h = int (length s)" using ln n(2) by (auto simp: List_Len_def)
  show ?thesis using fr bk a b c d by simp
qed

text \<open>
  Claim C6. On a new \<open>List[int]\<close>, \<open>PushFront(1)\<close>, \<open>PushFront(2)\<close> and then three
  \<open>PopBack()\<close> return \<open>1\<close>, then \<open>2\<close>, then the zero value \<open>0\<close>, and the list is left
  empty, with length \<open>0\<close>.
\<close>

theorem push_front_pop_back_scenario:
  "\<exists>l h0 e1 h1 e2 h2 h3 h4 h5.
     New (0::int) sf h = (l, h0) \<and>
     PushFront l 1 h0 = Some (e1, h1) \<and>
     PushFront l 2 h1 = Some (e2, h2) \<and>
     PopBack 0 l h2 = Some (1, h3) \<and>
     PopBack 0 l h3 = Some (2, h4) \<and>
     PopBack 0 l h4 = Some (0, h5) \<and>
     List_Len l h5 = 0 \<and> Front l h5 = None \<and> Back l h5 = None"
proof -
  obtain l h0 where n: "New (0::int) sf h = (l, h0)" and r0: "ring h0 l []" and s0: "sentinel 0 h0 l"
    using New_spec[of 0 sf h] by blast
  have h0: "holds h0 l []" using ring_is_list[OF r0] by (auto simp: holds_def values_of_def)
  obtain e1 h1 where p1: "PushFront l 1 h0 = Some (e1, h1)" and h1: "holds h1 l [1]"
    and f1: "frame l h0 h1"
    using PushFront_holds[OF h0, of 1] by blast
  obtain e2 h2 where p2: "PushFront l 2 h1 = Some (e2, h2)" and h2: "holds h2 l ([2] @ [1])"
    and f2: "frame l h1 h2"
    using PushFront_holds[OF h1, of 2] by auto
  obtain h3 where p3: "PopBack 0 l h2 = Some (1, h3)" and h3: "holds h3 l ([] @ [2])"
    and f3: "frame l h2 h3"
    using PopBack_holds[OF h2, of 0] by auto
  obtain h4 where p4: "PopBack 0 l h3 = Some (2, h4)" and h4: "holds h4 l []"
    and f4: "frame l h3 h4"
    using PopBack_holds[OF h3, of 0] by auto
  have s4: "sentinel 0 h4 l"
    using frame_sentinel[OF f4 frame_sentinel[OF f3 frame_sentinel[OF f2 frame_sentinel[OF f1 s0]]]] .
  let ?h5 = "lazyInit l h4"
  have p5: "PopBack 0 l h4 = Some (0, ?h5)" and l5: "len ?h5 l = 0"
    using PopBack_empty[OF h4 s4] by auto
  have "List_Len l ?h5 = 0 \<and> Front l ?h5 = None \<and> Back l ?h5 = None"
    using l5 by (simp add: List_Len_def Front_def Back_def)
  then show ?thesis using n p1 p2 p3 p4 p5 by blast
qed

lemma PushBack_ring:
  assumes r: "ring h l ns"
  shows "\<exists>h'. PushBack l v h = Some (Some (Node (next_elem h)), h') \<and>
      ring h' l (ns @ [next_elem h]) \<and> frame l h h' \<and> Value (elem h' (Node (next_elem h))) = v \<and>
      next_elem h' = Suc (next_elem h) \<and> next_list h' = next_list h"
  using push_back_ring[OF r, of v] lazyInit_id[OF r] by (simp add: PushBack_def)

lemma PushBack_each_ring:
  "ring h l ns \<Longrightarrow>
   \<exists>h' ms. PushBack_each l vs h = Some h' \<and> ring h' l (ns @ ms) \<and>
      values_of h' (ns @ ms) = values_of h ns @ vs \<and> frame l h h' \<and> next_list h' = next_list h"
proof (induction vs arbitrary: h ns)
  case Nil
  then show ?case using frame_refl[of l h] by (intro exI[of _ h] exI[of _ "[]"]) simp
next
  case (Cons v vs)
  obtain h1 where p: "PushBack l v h = Some (Some (Node (next_elem h)), h1)"
    and r1: "ring h1 l (ns @ [next_elem h])" and f1: "frame l h h1"
    and v1: "Value (elem h1 (Node (next_elem h))) = v" and nl1: "next_list h1 = next_list h"
    using PushBack_ring[OF Cons.prems, of v] by blast
  obtain h' ms where pe: "PushBack_each l vs h1 = Some h'"
    and r': "ring h' l ((ns @ [next_elem h]) @ ms)"
    and vs': "values_of h' ((ns @ [next_elem h]) @ ms) = values_of h1 (ns @ [next_elem h]) @ vs"
    and f': "frame l h1 h'" and nl': "next_list h' = next_list h1"
    using Cons.IH[OF r1] by blast
  have "values_of h1 ns = values_of h ns"
    using frame_values[OF f1 ring_bound[OF Cons.prems]] .
  then have "values_of h' (ns @ (next_elem h # ms)) = values_of h ns @ v # vs"
    using vs' v1 by (simp add: values_of_def)
  moreover have "ring h' l (ns @ (next_elem h # ms))" using r' by simp
  moreover have "frame l h h'" using frame_trans[OF f1 f'] .
  ultimately show ?case using p pe nl1 nl' by (intro exI[of _ h'] exI[of _ "next_elem h # ms"]) simp
qed

lemma NewFrom_spec:
  "\<exists>h' ns. NewFrom z vs sf h = Some (next_list h, h') \<and> ring h' (next_list h) ns \<and>
      values_of h' ns = vs \<and> holds h' (next_list h) vs \<and> sentinel z h' (next_list h) \<and>
      next_list h' = Suc (next_list h) \<and>
      (\<forall>q t. q \<noteq> next_list h \<and> holds h q t \<longrightarrow> holds h' q t)"
proof -
  let ?l = "next_list h"
  obtain h1 where n: "New z sf h = (?l, h1)" and r1: "ring h1 ?l []" and s1: "sentinel z h1 ?l"
    and nl1: "next_list h1 = Suc ?l"
    using New_spec[of z sf h] by blast
  obtain h' ms where pe: "PushBack_each ?l vs h1 = Some h'" and r': "ring h' ?l ([] @ ms)"
    and vs': "values_of h' ([] @ ms) = values_of h1 [] @ vs" and f: "frame ?l h1 h'"
    and nl': "next_list h' = next_list h1"
    using PushBack_each_ring[OF r1, of vs] by blast
  have v: "values_of h' ms = vs" using vs' by (simp add: values_of_def)
  have "holds h' ?l vs" using r' v ring_is_list[of h' ?l ms] by (auto simp: holds_def)
  moreover have "sentinel z h' ?l" using frame_sentinel[OF f s1] .
  moreover have "\<forall>q t. q \<noteq> ?l \<and> holds h q t \<longrightarrow> holds h' q t"
    using New_holds_other[OF n] frame_holds[OF f] by blast
  moreover have "NewFrom z vs sf h = Some (?l, h')" using n pe by (simp add: NewFrom_def)
  moreover have "ring h' ?l ms" using r' by simp
  moreover have "next_list h' = Suc ?l" using nl1 nl' by simp
  ultimately show ?thesis using v by blast
qed

lemma MarshalJSON_holds:
  assumes "holds h l s"
  shows "\<exists>h'. MarshalJSON json_Marshal l h = Some (json_Marshal s, h')"
proof -
  obtain ns where n: "is_list h l ns" "values_of h ns = s" using assms by (auto simp: holds_def)
  let ?l' = "next_list h"
  let ?h1 = "h\<lparr>elem := (elem h)(Root ?l' := elem h (Root l)), len := (len h)(?l' := len h l),
                 mu_safe := (mu_safe h)(?l' := mu_safe h l), next_list := Suc ?l'\<rparr>"
  have "\<exists>h2. FrontAll ?l' ?h1 = Some (s, h2)"
  proof (cases "ns = []")
    case True
    then have "len h l = 0" using n(1) by (auto simp: is_list_def ring_def split: if_splits)
    then have "len (lazyInit ?l' ?h1) ?l' = 0" by (simp add: lazyInit_def Init_def)
    then show ?thesis using True n(2) by (simp add: FrontAll_def List_Len_def Let_def values_of_def)
  next
    case False
    then have r: "ring h l ns" using n(1) by (auto simp: is_list_def split: if_splits)
    have c: "chain h (Root l) (map Node ns) (Root l)" using r by (simp add: ring_def)
    have rl: "elem ?h1 (Root l) = elem h (Root l)" by simp
    have "chain ?h1 (Root l) (map Node ns) (Root l)"
      by (rule chain_cong[OF c]) (use rl in auto)
    then have r1: "ring ?h1 l ns" using r by (auto simp: ring_def)
    have nn: "e_next (elem ?h1 (Root ?l')) = Some (Node (ns ! 0))" using ring_front[OF r False] by simp
    then have li: "lazyInit ?l' ?h1 = ?h1" by (simp add: lazyInit_def)
    have ln: "len ?h1 ?l' = int (length ns)" using r by (simp add: ring_def)
    have "FrontAll_loop (int (length ns)) (int 0) (e_next (elem ?h1 (Root ?l'))) ?h1
            = Some (drop 0 (values_of ?h1 ns))"
      by (rule FrontAll_loop_ring[OF r1]) (use nn False in auto)
    moreover have "values_of ?h1 ns = s" using n(2) by (simp add: values_of_def)
    ultimately show ?thesis using li ln False
      by (simp add: FrontAll_def List_Len_def Let_def del: fun_upd_apply)
  qed
  then show ?thesis by (auto simp: MarshalJSON_def Let_def)
qed

lemma insertValue_mu_safe:
  "insertValue l v at h = Some (e, h') \<Longrightarrow> mu_safe h' = mu_safe h"
  by (auto simp: insertValue_def insertE_def Let_def bind_eq_Some_conv)

lemma PushBack_mu_safe: "PushBack l v h = Some (e, h') \<Longrightarrow> mu_safe h' = mu_safe h"
  using insertValue_mu_safe[of l v _ "lazyInit l h" e h']
  by (auto simp: PushBack_def Let_def lazyInit_def Init_def)

lemma PushBack_each_locked_unsafe:
  "\<not> mu_safe h l \<Longrightarrow> PushBack_each_locked l vs h = PushBack_each l vs h"
proof (induction vs arbitrary: h)
  case Nil
  then show ?case by simp
next
  case (Cons v vs)
  show ?case
  proof (cases "PushBack l v h")
    case None
    then show ?thesis using Cons.prems by (simp add: RLock_while_locked_def)
  next
    case (Some r)
    obtain e h1 where r: "r = (e, h1)" by (cases r)
    have "\<not> mu_safe h1 l" using PushBack_mu_safe[of l v h e h1] Some r Cons.prems by simp
    then show ?thesis using Cons.IH[of h1] Some r Cons.prems by (simp add: RLock_while_locked_def)
  qed
qed

text \<open>
  The round trip, for a target list that is not concurrency-safe. For a list \<open>l\<close>
  holding \<open>s\<close>, \<open>MarshalJSON\<close> returns the bytes that \<open>json.Marshal\<close> gives for \<open>s\<close>;
  when the JSON codec reads those bytes back as \<open>s\<close>, \<open>UnmarshalJSON\<close> of them into a
  list made by \<open>New()\<close> returns no error and leaves that list holding \<open>s\<close>, in the same
  order.
\<close>

theorem json_round_trip:
  assumes "holds h l s" "json_Marshal s = Inr b" "json_Unmarshal b = Inr s"
  shows "\<exists>h1 l2 h2 h3. MarshalJSON json_Marshal l h = Some (Inr b, h1) \<and> New z False h1 = (l2, h2) \<and>
           UnmarshalJSON json_Unmarshal l2 b h2 = Some (None, h3) \<and>
           holds h3 l2 s \<and> FrontAll l2 h3 = Some (s, h3)"
proof -
  obtain h1 where m: "MarshalJSON json_Marshal l h = Some (Inr b, h1)"
    using MarshalJSON_holds[OF assms(1), of json_Marshal] assms(2) by auto
  obtain l2 h2 where n: "New z False h1 = (l2, h2)" and r2: "ring h2 l2 []"
    and ms: "mu_safe h2 l2 = False"
    using New_spec[of z False h1] by blast
  obtain h3 ms where pe: "PushBack_each l2 s h2 = Some h3" and r3: "ring h3 l2 ([] @ ms)"
    and v3: "values_of h3 ([] @ ms) = values_of h2 [] @ s"
    using PushBack_each_ring[OF r2, of s] by blast
  have v: "values_of h3 ms = s" using v3 by (simp add: values_of_def)
  have u: "UnmarshalJSON json_Unmarshal l2 b h2 = Some (None, h3)"
    using pe assms(3) lazyInit_id[OF r2] ms PushBack_each_locked_unsafe[of h2 l2 s]
    by (simp add: UnmarshalJSON_def)
  have "holds h3 l2 s" using r3 v ring_is_list[of h3 l2 ms] by (auto simp: holds_def)
  moreover have "FrontAll l2 h3 = Some (s, h3)" using FrontAll_ring[of h3 l2 ms] r3 v by simp
  ultimately show ?thesis using m n u by blast
qed

lemma binSearch_loop_absent:
  assumes c: "comparator a = Some c" and ab: "\<forall>x \<in> set (array a). c v x \<noteq> 0"
  shows "0 \<le> mn \<Longrightarrow> mx < int (length (array a)) \<Longrightarrow> cmp \<noteq> 0 \<Longrightarrow>
         \<exists>i r. binSearch_loop a v mn mx mid cmp = Inr (i, r) \<and> r \<noteq> 0"
proof (induction "nat (mx - mn + 1)" arbitrary: mn mx mid cmp rule: less_induct)
  case less
  show ?case
  proof (cases "mn \<le> mx")
    case False
    then show ?thesis using less.prems by (subst binSearch_loop.simps) simp
  next
    case True
    define m where "m = mn + (mx - mn) div 2"
    define r where "r = c v (array a ! nat m)"
    have m_range: "mn \<le> m" "m \<le> mx" using True by (auto simp: m_def)
    then have m_in: "0 \<le> m" "m < int (length (array a))" using less.prems by auto
    then have "array a ! nat m \<in> set (array a)" by simp
    then have r0: "r \<noteq> 0" using ab by (simp add: r_def)
    show ?thesis
    proof (cases "r < 0")
      case True
      have step: "binSearch_loop a v mn mx mid cmp = binSearch_loop a v mn (m - 1) m r"
        using \<open>mn \<le> mx\<close> m_in True c
        by (subst binSearch_loop.simps) (simp add: getComparator_def Let_def m_def[symmetric] r_def[symmetric])
      show ?thesis using less.hyps[of "m - 1" mn r m] less.prems m_range m_in r0 step by simp
    next
      case False
      then have gt: "r > 0" using r0 by simp
      have step: "binSearch_loop a v mn mx mid cmp = binSearch_loop a v (m + 1) mx m r"
        using \<open>mn \<le> mx\<close> m_in gt c
        by (subst binSearch_loop.simps) (simp add: getComparator_def Let_def m_def[symmetric] r_def[symmetric])
      show ?thesis using less.hyps[of mx "m + 1" r m] less.prems m_range m_in r0 step by simp
    qed
  qed
qed

lemma RemoveValue_absent:
  assumes "comparator a = Some c" "\<forall>x \<in> set (array a). c v x \<noteq> 0"
  shows "RemoveValue a v = Inr (False, a)"
proof (cases "array a = []")
  case True
  then show ?thesis by (simp add: RemoveValue_def binSearch_def)
next
  case False
  obtain i r where "binSearch_loop a v 0 (int (length (array a)) - 1) 0 (- 2) = Inr (i, r)" "r \<noteq> 0"
    using binSearch_loop_absent[OF assms, of 0 "int (length (array a)) - 1" "- 2" 0] by auto
  then show ?thesis using False by (simp add: RemoveValue_def binSearch_def)
qed

text \<open>
  Claim C3, as amended. Removing what is absent reports not-found and changes nothing,
  where the removal can be decided: \<open>List.Remove\<close> of values none of which the list
  holds returns \<open>changed = false\<close> and leaves the heap as it was; and on a sorted array
  that is empty or has its comparator set, \<open>RemoveValue\<close> of a value that the
  comparator finds equal to no stored element returns \<open>false\<close> and leaves the array as
  it was, without a panic. On a non-empty sorted array whose comparator is nil,
  \<open>RemoveValue\<close> panics with "comparator is missing" whatever the value. (Values are
  compared by HOL equality: an element type whose \<open>==\<close> can panic is outside the model.)
\<close>

theorem remove_absent_changes_nothing:
  assumes "holds h l s" "set ks \<inter> set s = {}"
    and "array a = [] \<or> (comparator a = Some c \<and> (\<forall>x \<in> set (array a). c k x \<noteq> 0))"
    and "comparator b = None" "array b \<noteq> []"
  shows "List_Remove l ks h = Some (False, h) \<and> RemoveValue a k = Inr (False, a) \<and>
         RemoveValue b k' = Inl ComparatorMissing"
proof -
  obtain ns where n: "is_list h l ns" "values_of h ns = s" using assms(1) by (auto simp: holds_def)
  have 1: "List_Remove l ks h = Some (False, h)"
    using List_Remove_loop_absent[OF n(1), of ks False] assms(2) n(2) by (simp add: List_Remove_def)
  have 2: "RemoveValue a k = Inr (False, a)"
  proof (cases "array a = []")
    case True
    then show ?thesis by (simp add: RemoveValue_def binSearch_def)
  next
    case False
    then show ?thesis using assms(3) RemoveValue_absent[of a c k] by simp
  qed
  have 3: "RemoveValue b k' = Inl ComparatorMissing"
    using assms(4,5) by (simp add: RemoveValue_def binSearch_nil)
  show ?thesis using 1 2 3 by simp
qed

text \<open>
  Claim C3 as stated fails on a sorted array built with a nil comparator: after
  \<open>Append(3)\<close> the array holds \<open>3\<close>, the value \<open>5\<close> is absent, and \<open>RemoveValue(5)\<close>
  panics instead of reporting not-found.
\<close>

theorem remove_value_nil_comparator_counterexample:
  "Append (NewSortedArray None) [3::int] = Inr \<lparr>array = [3], unique = False, comparator = None\<rparr>
   \<and> (5::int) \<notin> set [3]
   \<and> RemoveValue \<lparr>array = [3::int], unique = False, comparator = None\<rparr> 5
       = Inl ComparatorMissing"
  by (simp add: Append_def NewSortedArray_def NewSortedArraySize_def RemoveValue_def binSearch_def
      getComparator_def)

text \<open>
  Claim C2, as amended. With a handle \<open>e\<close> whose \<open>list\<close> field is not \<open>A\<close> (an
  element of another list, or one that is in no list), \<open>A.InsertBefore(e, v)\<close>,
  \<open>A.InsertAfter(e, v)\<close>, \<open>A.MoveToFront(e)\<close>, \<open>A.MoveToBack(e)\<close>, \<open>A.MoveBefore(e, m)\<close>
  and \<open>A.MoveAfter(e, m)\<close> return without a panic and leave the whole heap, so both
  lists, as it was; the insertions return nil. \<open>Remove\<close> is not among them: it takes
  values, not handles.
\<close>

theorem foreign_handle_is_ignored:
  assumes "e_list (elem h e) \<noteq> Some A"
  shows "InsertBefore A (Some e) v h = Some (None, h) \<and>
         InsertAfter A (Some e) v h = Some (None, h) \<and>
         MoveToFront A (Some e) h = Some h \<and>
         MoveToBack A (Some e) h = Some h \<and>
         MoveBefore A (Some e) m h = Some h \<and>
         MoveAfter A (Some e) m h = Some h"
  using assms
  by (simp add: InsertBefore_def InsertAfter_def MoveToFront_def MoveToBack_def MoveBefore_def
      MoveAfter_def)

lemma two_lists_hold:
  "holds (snd (the (NewFrom z t False (snd (the (NewFrom z s False (empty_heap z))))))) 0 s \<and>
   holds (snd (the (NewFrom z t False (snd (the (NewFrom z s False (empty_heap z))))))) 1 t"
proof -
  have n0: "next_list (empty_heap z) = 0" by (simp add: empty_heap_def)
  obtain h1 where a: "NewFrom z s False (empty_heap z) = Some (0, h1)" and h1: "holds h1 0 s"
    and nl: "next_list h1 = Suc 0"
    using NewFrom_spec[of z s False "empty_heap z"] n0 by auto
  obtain h2 where b: "NewFrom z t False h1 = Some (Suc 0, h2)" and h2: "holds h2 (Suc 0) t"
    and keep: "\<forall>q u. q \<noteq> Suc 0 \<and> holds h1 q u \<longrightarrow> holds h2 q u"
    using NewFrom_spec[of z t False h1] nl by auto
  have "holds h2 0 s" using keep h1 by auto
  then show ?thesis using a b h2 by simp
qed

lemma demo_two_holds: "holds demo_two 0 [1, 2] \<and> holds demo_two 1 [3]"
  unfolding demo_two_def by (rule two_lists_hold)

lemma demo_same_holds: "holds demo_same 0 [1] \<and> holds demo_same 1 [1]"
  unfolding demo_same_def by (rule two_lists_hold)

lemma demo_bools_holds: "holds demo_bools 0 [True, False]"
proof -
  have n0: "next_list (empty_heap False) = 0" by (simp add: empty_heap_def)
  show ?thesis unfolding demo_bools_def
    using NewFrom_spec[of False "[True, False]" False "empty_heap False"] n0 by auto
qed

lemma Front_handle:
  assumes "holds h l (v # s)"
  shows "\<exists>f. Front l h = Some f \<and> e_list (elem h f) = Some l \<and> Value (elem h f) = v"
proof -
  obtain ns where n: "is_list h l ns" "values_of h ns = v # s" using assms by (auto simp: holds_def)
  then obtain m ms where ms: "ns = m # ms" by (cases ns) (auto simp: values_of_def)
  have r: "ring h l (m # ms)" using n(1) ms by (auto simp: is_list_def split: if_splits)
  have "len h l \<noteq> 0" using r by (simp add: ring_def)
  then have "Front l h = Some (Node m)" using ring_front[OF r] by (simp add: Front_def)
  moreover have "e_list (elem h (Node m)) = Some l" using r by (simp add: ring_def)
  moreover have "Value (elem h (Node m)) = v" using n(2) ms by (simp add: values_of_def)
  ultimately show ?thesis by simp
qed

lemma List_Remove_first:
  assumes "holds h l (v # s)"
  shows "\<exists>h'. List_Remove l [v] h = Some (True, h') \<and> holds h' l s"
proof -
  obtain ns where n: "is_list h l ns" "values_of h ns = v # s" using assms by (auto simp: holds_def)
  then obtain m ms where ms: "ns = m # ms" by (cases ns) (auto simp: values_of_def)
  have r: "ring h l (m # ms)" using n(1) ms by (auto simp: is_list_def split: if_splits)
  have vm: "Value (elem h (Node m)) = v" "values_of h ms = s" using n(2) ms by (auto simp: values_of_def)
  obtain h' where rm: "List_Remove l [v] h = Some (True, h')" and r': "ring h' l ms"
    and fr: "frame l h h'"
    using List_Remove_head[OF r vm(1)] by blast
  have b: "\<forall>n \<in> set ms. n < next_elem h" using ring_bound[OF r] by simp
  have "values_of h' ms = s" using frame_values[OF fr b] vm by simp
  then have "holds h' l s" using ring_is_list[OF r'] by (auto simp: holds_def)
  then show ?thesis using rm by blast
qed

theorem push_list_copies_values_witness:
  "holds demo_two 0 [1, 2] \<and>
   (\<exists>h'. PushBackList 0 0 demo_two = Some h' \<and> holds h' 0 [1, 2, 1, 2] \<and>
         List_Len 0 h' = 2 * List_Len 0 demo_two \<and> FrontAll 0 h' = Some ([1, 2, 1, 2], h')) \<and>
   (\<exists>h'. PushFrontList 0 0 demo_two = Some h' \<and> holds h' 0 [1, 2, 1, 2]) \<and>
   (\<exists>h'. PushBackList 0 1 demo_two = Some h' \<and> holds h' 0 [1, 2, 3] \<and> holds h' 1 [3]) \<and>
   (\<exists>h'. PushFrontList 0 1 demo_two = Some h' \<and> holds h' 0 [3, 1, 2] \<and> holds h' 1 [3])"
proof -
  have h: "holds demo_two 0 [1, 2]" "holds demo_two 1 [3]" using demo_two_holds by auto
  have ne: "(1::nat) \<noteq> 0 \<and> holds demo_two 1 [3]" using h by simp
  show ?thesis using push_list_copies_values[OF h(1)] h ne by (auto dest!: spec[of _ "1::nat"] spec[of _ "[3::int]"])
qed

theorem traversal_by_handles_witness:
  "holds demo_two 0 [1, 2] \<and> [1, 2 :: int] \<noteq> [] \<and>
   (\<exists>b. Back 0 demo_two = Some b \<and> Next (Some b) demo_two = Some None) \<and>
   (\<exists>f. Front 0 demo_two = Some f \<and> Prev (Some f) demo_two = Some None) \<and>
   traverse 2 (Front 0 demo_two) demo_two = Some [1, 2] \<and>
   List_Len 0 demo_two = 2"
proof -
  have h: "holds demo_two 0 [1, 2]" using demo_two_holds by auto
  show ?thesis using traversal_by_handles[OF h] h by simp
qed

theorem remove_absent_changes_nothing_witness:
  "holds demo_two 0 [1, 2] \<and> set [7] \<inter> set [1, 2 :: int] = {} \<and>
   compare_int 2 1 \<noteq> 0 \<and> compare_int 2 3 \<noteq> 0 \<and>
   List_Remove 0 [7] demo_two = Some (False, demo_two) \<and>
   RemoveValue \<lparr>array = [1, 3], unique = False, comparator = Some compare_int\<rparr> 2
     = Inr (False, \<lparr>array = [1, 3], unique = False, comparator = Some compare_int\<rparr>) \<and>
   RemoveValue \<lparr>array = [], unique = False, comparator = None\<rparr> (2::int)
     = Inr (False, \<lparr>array = [], unique = False, comparator = None\<rparr>) \<and>
   RemoveValue \<lparr>array = [3], unique = False, comparator = None\<rparr> (5::int) = Inl ComparatorMissing"
proof -
  have h: "holds demo_two 0 [1, 2]" using demo_two_holds by auto
  have d: "set [7] \<inter> set [1, 2 :: int] = {}" by simp
  let ?a = "\<lparr>array = [1, 3], unique = False, comparator = Some compare_int\<rparr>"
  let ?e = "\<lparr>array = [] :: int list, unique = False, comparator = None\<rparr>"
  let ?b = "\<lparr>array = [3::int], unique = False, comparator = None\<rparr>"
  have a: "array ?a = [] \<or> (comparator ?a = Some compare_int \<and>
             (\<forall>x \<in> set (array ?a). compare_int 2 x \<noteq> 0))"
    by (simp add: compare_int_def)
  have e: "array ?e = [] \<or> (comparator ?e = Some compare_int \<and>
             (\<forall>x \<in> set (array ?e). compare_int 2 x \<noteq> 0))"
    by simp
  have b: "comparator ?b = None" "array ?b \<noteq> []" by simp_all
  show ?thesis
    using remove_absent_changes_nothing[OF h d a b, of 5]
      remove_absent_changes_nothing[OF h d e b, of 5] h
    by (simp add: compare_int_def)
qed

theorem foreign_handle_is_ignored_witness:
  "e_list (elem demo_two (the (Front 1 demo_two))) \<noteq> Some 0 \<and>
   InsertBefore 0 (Front 1 demo_two) 9 demo_two = Some (None, demo_two) \<and>
   InsertAfter 0 (Front 1 demo_two) 9 demo_two = Some (None, demo_two) \<and>
   MoveToFront 0 (Front 1 demo_two) demo_two = Some demo_two \<and>
   MoveToBack 0 (Front 1 demo_two) demo_two = Some demo_two \<and>
   MoveBefore 0 (Front 1 demo_two) (Front 0 demo_two) demo_two = Some demo_two \<and>
   MoveAfter 0 (Front 1 demo_two) (Front 0 demo_two) demo_two = Some demo_two"
proof -
  obtain f where f: "Front 1 demo_two = Some f" "e_list (elem demo_two f) = Some 1"
    using Front_handle[of demo_two 1 3 "[]"] demo_two_holds by auto
  have ne: "e_list (elem demo_two f) \<noteq> Some 0" using f by simp
  show ?thesis using foreign_handle_is_ignored[OF ne, of 9 "Front 0 demo_two"] f by simp
qed

text \<open>
  Claim C2 as stated fails for \<open>Remove\<close>: with \<open>e\<close> the front element of list \<open>1\<close>,
  \<open>Remove(e.Value)\<close> on list \<open>0\<close> reports a change and empties list \<open>0\<close>.
\<close>

theorem remove_takes_values_counterexample:
  "e_list (elem demo_same (the (Front 1 demo_same))) = Some 1 \<and>
   List_Len 0 demo_same = 1 \<and>
   fst (the (List_Remove 0 [Value (elem demo_same (the (Front 1 demo_same)))] demo_same)) = True \<and>
   List_Len 0 (snd (the (List_Remove 0 [Value (elem demo_same (the (Front 1 demo_same)))] demo_same))) = 0"
proof -
  have h: "holds demo_same 0 [1]" "holds demo_same 1 [1]" using demo_same_holds by auto
  obtain f where f: "Front 1 demo_same = Some f" "e_list (elem demo_same f) = Some 1"
    "Value (elem demo_same f) = 1"
    using Front_handle[OF h(2)] by auto
  obtain h' where r: "List_Remove 0 [1] demo_same = Some (True, h')" "holds h' 0 []"
    using List_Remove_first[OF h(1)] by auto
  show ?thesis using f r holds_len[OF h(1)] holds_len[OF r(2)] by (simp add: List_Len_def)
qed

theorem json_round_trip_witness:
  "holds demo_bools 0 [True, False] \<and>
   json_Marshal_bools [True, False] = Inr ''[true,false]'' \<and>
   json_Unmarshal_bools ''[true,false]'' = Inr [True, False] \<and>
   (\<exists>h1 l2 h2 h3.
      MarshalJSON json_Marshal_bools 0 demo_bools = Some (Inr ''[true,false]'', h1) \<and>
      New False False h1 = (l2, h2) \<and>
      UnmarshalJSON json_Unmarshal_bools l2 ''[true,false]'' h2 = Some (None, h3) \<and>
      holds h3 l2 [True, False] \<and> FrontAll l2 h3 = Some ([True, False], h3))"
proof -
  have m: "json_Marshal_bools [True, False] = Inr ''[true,false]''"
    by (simp add: json_Marshal_bools_def)
  have "json_bools ''true,false]'' = Inr [True, False]"
    by (simp add: json_bools.simps)
  then have u: "json_Unmarshal_bools ''[true,false]'' = Inr [True, False]"
    by (simp add: json_Unmarshal_bools_def)
  show ?thesis
    using json_round_trip[where h = demo_bools and l = 0 and s = "[True, False]" and b = "''[true,false]''"
        and json_Marshal = json_Marshal_bools and json_Unmarshal = json_Unmarshal_bools
        and z = False]
      demo_bools_holds m u
    by simp
qed

text \<open>
  Claim C4 fails on the code. After \<open>e := l.PushBack(1)\<close> and \<open>l.Clear()\<close> the list is
  empty, but \<open>e.list\<close> is still \<open>l\<close>, so \<open>l.InsertAfter(e, 2)\<close> passes the ownership
  check: \<open>l.len\<close> becomes \<open>1\<close> while \<open>l.root.next\<close> is still the sentinel itself, so that
  a walk along \<open>next\<close> from \<open>root.next\<close> meets no element, and \<open>root.prev\<close> is the new
  element.
\<close>

theorem insert_after_clear_breaks_length:
  "\<exists>l h0 e h1 e' h3.
     New (0::int) sf h = (l, h0) \<and> PushBack l 1 h0 = Some (Some e, h1) \<and>
     Front l (Clear l h1) = None \<and> List_Len l (Clear l h1) = 0 \<and>
     InsertAfter l (Some e) 2 (Clear l h1) = Some (Some e', h3) \<and>
     List_Len l h3 = 1 \<and>
     e_next (elem h3 (Root l)) = Some (Root l) \<and>
     e_prev (elem h3 (Root l)) = Some e' \<and> e' \<noteq> Root l"
proof -
  obtain l h0 where n: "New (0::int) sf h = (l, h0)" and r0: "ring h0 l []"
    using New_spec[of 0 sf h] by blast
  let ?k = "next_elem h0"
  obtain h1 where p: "PushBack l 1 h0 = Some (Some (Node ?k), h1)"
    and r1: "ring h1 l ([] @ [?k])" and ne1: "next_elem h1 = Suc ?k"
    using PushBack_ring[OF r0, of 1] by blast
  have k: "e_next (elem h1 (Node ?k)) = Some (Root l)" "e_list (elem h1 (Node ?k)) = Some l"
    using r1 by (auto simp: ring_def)
  let ?h2 = "Clear l h1"
  have c: "e_next (elem ?h2 (Node ?k)) = Some (Root l)" "e_list (elem ?h2 (Node ?k)) = Some l"
    "e_next (elem ?h2 (Root l)) = Some (Root l)" "len ?h2 l = 0" "next_elem ?h2 = Suc ?k"
    using k ne1 by (auto simp: Clear_def Init_def)
  have fresh: "Node ?k \<noteq> Node (next_elem ?h2)" "Root l \<noteq> Node (next_elem ?h2)"
    using c(5) by auto
  obtain h3 where i: "insertValue l 2 (Some (Node ?k)) ?h2 = Some (Some (Node (next_elem ?h2)), h3)"
    and bp: "e_prev (elem h3 (Root l)) = Some (Node (next_elem ?h2))"
    and nx: "\<forall>r. r \<noteq> Node ?k \<and> r \<noteq> Node (next_elem ?h2) \<longrightarrow>
                e_next (elem h3 r) = e_next (elem ?h2 r)"
    and ln: "len h3 = (len ?h2)(l := len ?h2 l + 1)"
    using insertValue_spec[OF c(1) fresh, of l 2] by blast
  have ia: "InsertAfter l (Some (Node ?k)) 2 ?h2 = Some (Some (Node (next_elem ?h2)), h3)"
    using i c(2) by (simp add: InsertAfter_def)
  have "e_next (elem h3 (Root l)) = Some (Root l)" using nx c(3) by simp
  moreover have "List_Len l h3 = 1" using ln c(4) by (simp add: List_Len_def)
  moreover have "Front l ?h2 = None" "List_Len l ?h2 = 0" using c(4) by (simp_all add: Front_def List_Len_def)
  ultimately show ?thesis using n p ia bp by blast
qed

text \<open>
  Claim C8 fails on the code when the target list is concurrency-safe: the bytes
  \<open>[true]\<close>, as \<open>MarshalJSON\<close> gives them for a list holding \<open>true\<close>, unmarshalled into the
  new list \<open>glist.New[bool](true)\<close>, make \<open>UnmarshalJSON\<close> request the read lock of the
  mutex whose write lock it holds, and the call does not return.
\<close>

theorem unmarshal_into_safe_list_blocks:
  "UnmarshalJSON json_Unmarshal_bools (fst (New False True (empty_heap False))) ''[true]''
     (snd (New False True (empty_heap False))) = None"
proof -
  have n0: "next_list (empty_heap False) = 0" by (simp add: empty_heap_def)
  obtain h' where n: "New False True (empty_heap False) = (0, h')" and ms: "mu_safe h' 0 = True"
    using New_spec[of False True "empty_heap False"] n0 by auto
  have l: "mu_safe (lazyInit 0 h') 0 = True" using ms by (simp add: lazyInit_def Init_def)
  have "json_bools ''true]'' = Inr [True]" by (simp add: json_bools.simps)
  then have u: "json_Unmarshal_bools ''[true]'' = Inr [True]"
    by (simp add: json_Unmarshal_bools_def)
  show ?thesis using n l u by (simp add: UnmarshalJSON_def RLock_while_locked_def)
qed

section \<open>Properties of the AVL tree\<close>

lemma six_keys_shape: "six_keys =
   AVLNode (AVLNode (AVLNode Empty ''key0'' ''val0'' 1 Empty) ''key1'' ''val1'' 2
                    (AVLNode Empty ''key2'' ''val2'' 1 Empty))
           ''key3'' ''val3'' 3
           (AVLNode Empty ''key4'' ''val4'' 2 (AVLNode Empty ''key5'' ''val5'' 1 Empty))"
  by (simp add: six_keys_def node_def)

text \<open>
  Claim C5. Putting \<open>key0\<close> to \<open>key5\<close> (values \<open>val0\<close> to \<open>val5\<close>) in ascending order
  into an empty AVL tree under the string comparator gives a tree that renders as the six
  lines of the spec's diagram: \<open>key3\<close> at the root, \<open>key4\<close> above it with \<open>key5\<close> above
  that, and \<open>key1\<close> below with \<open>key2\<close> above it and \<open>key0\<close> below it.
\<close>

theorem avl_six_keys_diagram:
  "String six_keys =
     bar_gap @ gap @ branch_up @ ''key5'' @ [CHR 0x0A] @
     bar_gap @ branch_up @ ''key4'' @ [CHR 0x0A] @
     branch_down @ ''key3'' @ [CHR 0x0A] @
     gap @ bar_gap @ branch_up @ ''key2'' @ [CHR 0x0A] @
     gap @ branch_down @ ''key1'' @ [CHR 0x0A] @
     gap @ gap @ branch_down @ ''key0'' @ [CHR 0x0A]"
  by (simp add: six_keys_shape String_def)

end
